theory Spec2Isabelle
  imports Main "HOL-Library.AList" "HOL-Library.Sublist" "HOL-Library.Char_ord"
    "HOL-Library.List_Lexorder" "HOL-Library.Product_Lexorder"
begin

section \<open>Execution logs embedded in the privacy-request status response\<close>

text \<open>
  \<^verbatim>\<open>fidesops/api/v1/endpoints/privacy_request_endpoints.py\<close>.
  An \<^verbatim>\<open>ExecutionLog\<close> row carries the request it belongs to, the dataset and
  collection it reports on, the action, a status, a message and the time of its last
  update.
  The time is a point on a linear scale; a natural number of ticks stands for it.
\<close>

datatype execution_status = in_processing | retrying | complete | error | paused

datatype ActionType = access | erasure

record execution_log =
  privacy_request_id :: string
  dataset_name :: string
  collection_name :: string
  action_type :: ActionType
  status :: execution_status
  message :: "string option"
  updated_at :: nat

definition EMBEDDED_EXECUTION_LOG_LIMIT :: nat where
  "EMBEDDED_EXECUTION_LOG_LIMIT = 50"

text \<open>
  The query of \<^verbatim>\<open>execution_logs_by_dataset_name\<close>: the rows of the request,
  ordered by dataset name, then by \<^verbatim>\<open>updated_at\<close> ascending.
\<close>

definition order_key :: "execution_log \<Rightarrow> string \<times> nat" where
  "order_key l = (dataset_name l, updated_at l)"

definition query_logs :: "execution_log list \<Rightarrow> string \<Rightarrow> execution_log list" where
  "query_logs table rid =
     sort_key order_key (filter (\<lambda>l. privacy_request_id l = rid) table)"

text \<open>
  The \<^verbatim>\<open>defaultdict(list)\<close>: reading a missing key stores and yields the empty list.
\<close>

definition dd_get :: "(string \<rightharpoonup> execution_log list) \<Rightarrow> string \<Rightarrow> execution_log list" where
  "dd_get d k = (case d k of None \<Rightarrow> [] | Some xs \<Rightarrow> xs)"

text \<open>
  The loop \<^verbatim>\<open>for log in logs\<close>: the guard reads
  \<^verbatim>\<open>execution_logs[log.dataset_name]\<close> (which creates the key), skips the row when
  the list is already longer than the limit, and appends it otherwise.
\<close>

fun embed_logs ::
  "execution_log list \<Rightarrow> (string \<rightharpoonup> execution_log list) \<Rightarrow> (string \<rightharpoonup> execution_log list)"
where
  "embed_logs [] d = d"
| "embed_logs (log # logs) d =
     (let cur = dd_get d (dataset_name log);
          d1 = d(dataset_name log \<mapsto> cur)
      in if length cur > EMBEDDED_EXECUTION_LOG_LIMIT
         then embed_logs logs d1
         else embed_logs logs (d1(dataset_name log \<mapsto> cur @ [log])))"

definition execution_logs_by_dataset_name ::
  "execution_log list \<Rightarrow> string \<Rightarrow> (string \<rightharpoonup> execution_log list)"
where
  "execution_logs_by_dataset_name table rid = embed_logs (query_logs table rid) Map.empty"

section \<open>Configuration and the censored configuration\<close>

text \<open>
  \<^verbatim>\<open>fidesops/core/config.py\<close>. Each settings class is a record with the fields the
  class declares; optional fields are options. Errors the Python raises are values.
\<close>

datatype py_error = IndexError | KeyError | TypeError | AttributeError | OperationalError

record DatabaseSettings =
  SERVER :: string
  USER :: string
  PASSWORD :: string
  DB :: string
  PORT :: string
  TEST_DB :: string
  SQLALCHEMY_DATABASE_URI :: "string option"
  SQLALCHEMY_TEST_DATABASE_URI :: "string option"

record ExecutionSettings =
  TASK_RETRY_COUNT :: int
  TASK_RETRY_DELAY :: int
  TASK_RETRY_BACKOFF :: int

record RedisSettings =
  HOST :: string
  REDIS_PORT :: int
  REDIS_PASSWORD :: string
  CHARSET :: string
  DECODE_RESPONSES :: bool
  DEFAULT_TTL_SECONDS :: int
  DB_INDEX :: int

record SecuritySettings =
  AES_ENCRYPTION_KEY_LENGTH :: int
  AES_GCM_NONCE_LENGTH :: int
  APP_ENCRYPTION_KEY :: string
  CORS_ORIGINS :: "string list"
  ENCODING :: string
  OAUTH_ROOT_CLIENT_ID :: string
  OAUTH_ROOT_CLIENT_SECRET :: string
  OAUTH_ROOT_CLIENT_SECRET_HASH :: "(string \<times> string) option"
  OAUTH_ACCESS_TOKEN_EXPIRE_MINUTES :: int
  OAUTH_CLIENT_ID_LENGTH_BYTES :: int
  OAUTH_CLIENT_SECRET_LENGTH_BYTES :: int

record FidesopsConfig =
  database :: DatabaseSettings
  redis :: RedisSettings
  security :: SecuritySettings
  execution :: ExecutionSettings

text \<open>
  The values of \<^verbatim>\<open>the_config.dict()\<close>: strings, integers, booleans, the list of
  CORS origins, the (hash, salt) pair, and \<^verbatim>\<open>None\<close>.
\<close>

datatype cfg_value =
  CStr string | CInt int | CBool bool | CStrList "string list"
  | CPair string string | CNone

type_synonym cfg_section = "(string \<times> cfg_value) list"
type_synonym cfg_dict = "(string \<times> cfg_section) list"

definition opt_str :: "string option \<Rightarrow> cfg_value" where
  "opt_str v = (case v of None \<Rightarrow> CNone | Some s \<Rightarrow> CStr s)"

definition opt_pair :: "(string \<times> string) option \<Rightarrow> cfg_value" where
  "opt_pair v = (case v of None \<Rightarrow> CNone | Some (h, s) \<Rightarrow> CPair h s)"

text \<open>
  \<^verbatim>\<open>the_config.dict()\<close>: every field of every section under its Python name (the
  Redis record's \<^verbatim>\<open>PORT\<close> and \<^verbatim>\<open>PASSWORD\<close> carry a prefix in the record only,
  because the database record has fields of the same names).
\<close>

definition config_dict :: "FidesopsConfig \<Rightarrow> cfg_dict" where
  "config_dict c =
    [(''database'',
        [(''SERVER'', CStr (SERVER (database c))),
         (''USER'', CStr (USER (database c))),
         (''PASSWORD'', CStr (PASSWORD (database c))),
         (''DB'', CStr (DB (database c))),
         (''PORT'', CStr (PORT (database c))),
         (''TEST_DB'', CStr (TEST_DB (database c))),
         (''SQLALCHEMY_DATABASE_URI'', opt_str (SQLALCHEMY_DATABASE_URI (database c))),
         (''SQLALCHEMY_TEST_DATABASE_URI'',
            opt_str (SQLALCHEMY_TEST_DATABASE_URI (database c)))]),
     (''redis'',
        [(''HOST'', CStr (HOST (redis c))),
         (''PORT'', CInt (REDIS_PORT (redis c))),
         (''PASSWORD'', CStr (REDIS_PASSWORD (redis c))),
         (''CHARSET'', CStr (CHARSET (redis c))),
         (''DECODE_RESPONSES'', CBool (DECODE_RESPONSES (redis c))),
         (''DEFAULT_TTL_SECONDS'', CInt (DEFAULT_TTL_SECONDS (redis c))),
         (''DB_INDEX'', CInt (DB_INDEX (redis c)))]),
     (''security'',
        [(''AES_ENCRYPTION_KEY_LENGTH'', CInt (AES_ENCRYPTION_KEY_LENGTH (security c))),
         (''AES_GCM_NONCE_LENGTH'', CInt (AES_GCM_NONCE_LENGTH (security c))),
         (''APP_ENCRYPTION_KEY'', CStr (APP_ENCRYPTION_KEY (security c))),
         (''CORS_ORIGINS'', CStrList (CORS_ORIGINS (security c))),
         (''ENCODING'', CStr (ENCODING (security c))),
         (''OAUTH_ROOT_CLIENT_ID'', CStr (OAUTH_ROOT_CLIENT_ID (security c))),
         (''OAUTH_ROOT_CLIENT_SECRET'', CStr (OAUTH_ROOT_CLIENT_SECRET (security c))),
         (''OAUTH_ROOT_CLIENT_SECRET_HASH'',
            opt_pair (OAUTH_ROOT_CLIENT_SECRET_HASH (security c))),
         (''OAUTH_ACCESS_TOKEN_EXPIRE_MINUTES'',
            CInt (OAUTH_ACCESS_TOKEN_EXPIRE_MINUTES (security c))),
         (''OAUTH_CLIENT_ID_LENGTH_BYTES'', CInt (OAUTH_CLIENT_ID_LENGTH_BYTES (security c))),
         (''OAUTH_CLIENT_SECRET_LENGTH_BYTES'',
            CInt (OAUTH_CLIENT_SECRET_LENGTH_BYTES (security c)))]),
     (''execution'',
        [(''TASK_RETRY_COUNT'', CInt (TASK_RETRY_COUNT (execution c))),
         (''TASK_RETRY_DELAY'', CInt (TASK_RETRY_DELAY (execution c))),
         (''TASK_RETRY_BACKOFF'', CInt (TASK_RETRY_BACKOFF (execution c)))])]"

definition CONFIG_KEY_ALLOWLIST :: "(string \<times> string list) list" where
  "CONFIG_KEY_ALLOWLIST =
    [(''database'', [''SERVER'', ''USER'', ''PORT'', ''DB'', ''TEST_DB'']),
     (''redis'', [''HOST'', ''PORT'', ''CHARSET'', ''DECODE_RESPONSES'',
                  ''DEFAULT_TTL_SECONDS'', ''DB_INDEX'']),
     (''security'', [''CORS_ORIGINS'', ''ENCODING'', ''OAUTH_ACCESS_TOKEN_EXPIRE_MINUTES'']),
     (''execution'', [''TASK_RETRY_COUNT'', ''TASK_RETRY_DELAY'', ''TASK_RETRY_BACKOFF''])]"

text \<open>
  The inner loop \<^verbatim>\<open>for field in value: filtered[key][field] = data[field]\<close>;
  a missing field raises \<^verbatim>\<open>KeyError\<close>.
\<close>

fun copy_fields :: "string list \<Rightarrow> cfg_section \<Rightarrow> cfg_section \<Rightarrow> py_error + cfg_section" where
  "copy_fields [] data acc = Inr acc"
| "copy_fields (field # flds) data acc =
     (case map_of data field of
        None \<Rightarrow> Inl KeyError
      | Some v \<Rightarrow> copy_fields flds data (AList.update field v acc))"

text \<open>
  The outer loop \<^verbatim>\<open>for key, value in CONFIG_KEY_ALLOWLIST.items()\<close>:
  \<^verbatim>\<open>data = as_dict[key]\<close>, \<^verbatim>\<open>filtered[key] = {}\<close>, then the inner loop.
\<close>

fun censor_sections ::
  "(string \<times> string list) list \<Rightarrow> cfg_dict \<Rightarrow> cfg_dict \<Rightarrow> py_error + cfg_dict"
where
  "censor_sections [] as_dict filtered = Inr filtered"
| "censor_sections ((key, value) # rest) as_dict filtered =
     (case map_of as_dict key of
        None \<Rightarrow> Inl KeyError
      | Some data \<Rightarrow>
          (case copy_fields value data [] of
             Inl e \<Rightarrow> Inl e
           | Inr sec \<Rightarrow> censor_sections rest as_dict (AList.update key sec filtered)))"

definition get_censored_config :: "FidesopsConfig \<Rightarrow> py_error + cfg_dict" where
  "get_censored_config the_config =
     censor_sections CONFIG_KEY_ALLOWLIST (config_dict the_config) []"

text \<open>The sections and keys a censored configuration shows.\<close>

definition shown_keys :: "cfg_dict \<Rightarrow> (string \<times> string list) list" where
  "shown_keys d = map (\<lambda>(s, sec). (s, map fst sec)) d"

text \<open>
  The fields the claim names as secrets: both passwords, the encryption key, the root
  client's credentials, and the two connection strings (they embed the password).
\<close>

definition secret_fields :: "(string \<times> string) list" where
  "secret_fields =
    [(''database'', ''PASSWORD''), (''database'', ''SQLALCHEMY_DATABASE_URI''),
     (''database'', ''SQLALCHEMY_TEST_DATABASE_URI''), (''redis'', ''PASSWORD''),
     (''security'', ''APP_ENCRYPTION_KEY''), (''security'', ''OAUTH_ROOT_CLIENT_ID''),
     (''security'', ''OAUTH_ROOT_CLIENT_SECRET''),
     (''security'', ''OAUTH_ROOT_CLIENT_SECRET_HASH'')]"

definition shows_field :: "cfg_dict \<Rightarrow> string \<times> string \<Rightarrow> bool" where
  "shows_field d sf = (case map_of d (fst sf) of
       None \<Rightarrow> False | Some sec \<Rightarrow> snd sf \<in> set (map fst sec))"

section \<open>Rows and the result filter\<close>

text \<open>
  \<^verbatim>\<open>fidesops/task/filter_results.py\<close>. A row is a Python dictionary from field names to
  values; a value is a scalar, a list of values or again a dictionary. A dictionary is
  the list of its items in insertion order (its keys are distinct, \<open>wf\<close> below).
\<close>

datatype pyval =
  PNone | PBool bool | PInt int | PStr string
  | PList "pyval list" | PDict "(string \<times> pyval) list"

type_synonym FieldPath = "string list"

fun is_container :: "pyval \<Rightarrow> bool" where
  "is_container (PList xs) = True"
| "is_container (PDict kvs) = True"
| "is_container v = False"

text \<open>\<^verbatim>\<open>value in [{}, []]\<close>\<close>

definition is_empty_container :: "pyval \<Rightarrow> bool" where
  "is_empty_container v = (v = PDict [] \<or> v = PList [])"

text \<open>\<^verbatim>\<open>_defaultdict_or_array\<close>: an empty container of the resource's type, or the resource.\<close>

fun defaultdict_or_array :: "pyval \<Rightarrow> pyval" where
  "defaultdict_or_array (PList xs) = PList []"
| "defaultdict_or_array (PDict kvs) = PDict []"
| "defaultdict_or_array v = v"

subsection \<open>\<^verbatim>\<open>select_and_save_field\<close>\<close>

text \<open>
  The function mutates \<^verbatim>\<open>saved\<close> in place and returns it. The model returns the
  object \<^verbatim>\<open>saved\<close> as the call leaves it, and the exception when one is raised: a
  nested container that a failed recursive call has changed stays changed in its
  parent, which matters where the caller catches the exception.

  \<open>save_list\<close> is the loop \<^verbatim>\<open>for i, elem in enumerate(row)\<close> from index \<open>i\<close> on.
  In the \<^verbatim>\<open>try\<close> block \<^verbatim>\<open>saved[i]\<close> raises \<^verbatim>\<open>IndexError\<close> beyond the end of a list or
  a string, \<^verbatim>\<open>KeyError\<close> on a dictionary (its keys are field names, never an index)
  and \<^verbatim>\<open>TypeError\<close> on another scalar; a string's character is a new string, and
  storing into a string raises \<^verbatim>\<open>TypeError\<close>. The handler catches \<^verbatim>\<open>IndexError\<close>
  only, whether \<^verbatim>\<open>saved[i]\<close> or the recursive call raised it; there
  \<^verbatim>\<open>saved.append\<close> is looked up first (\<^verbatim>\<open>AttributeError\<close> unless \<^verbatim>\<open>saved\<close> is a
  list), then its argument is computed.

  \<open>save_dict\<close> is the loop \<^verbatim>\<open>for key in row\<close> over the remaining items.
  \<^verbatim>\<open>target_path.levels[0]\<close> raises \<^verbatim>\<open>IndexError\<close> on the empty path. At the key of
  the path, a \<^verbatim>\<open>saved\<close> that is no dictionary ends in \<^verbatim>\<open>TypeError\<close>: a scalar other
  than a string at \<^verbatim>\<open>key not in saved\<close>, a list or a string at the subscript
  \<^verbatim>\<open>saved[key]\<close> that both branches reach next.
\<close>

fun select_and_save_field :: "pyval \<Rightarrow> pyval \<Rightarrow> FieldPath \<Rightarrow> pyval \<times> py_error option"
and save_list :: "pyval \<Rightarrow> nat \<Rightarrow> pyval list \<Rightarrow> FieldPath \<Rightarrow> pyval \<times> py_error option"
and save_dict :: "pyval \<Rightarrow> (string \<times> pyval) list \<Rightarrow> FieldPath \<Rightarrow> pyval \<times> py_error option"
where
  "select_and_save_field saved (PList elems) target_path = save_list saved 0 elems target_path"
| "select_and_save_field saved (PDict items) target_path = save_dict saved items target_path"
| "select_and_save_field saved PNone target_path = (saved, None)"
| "select_and_save_field saved (PBool b) target_path = (saved, None)"
| "select_and_save_field saved (PInt n) target_path = (saved, None)"
| "select_and_save_field saved (PStr s) target_path = (saved, None)"
| "save_list saved i [] target_path = (saved, None)"
| "save_list saved i (elem # elems) target_path =
    (case
       (case saved of
          PList xs \<Rightarrow>
            if i < length xs then
              (case select_and_save_field (xs ! i) elem target_path of
                 (v, None) \<Rightarrow> (PList (xs[i := v]), None)
               | (v, Some e) \<Rightarrow> (PList (xs[i := v]), Some e))
            else (saved, Some IndexError)
        | PStr s \<Rightarrow>
            if i < length s then
              (case select_and_save_field (PStr [s ! i]) elem target_path of
                 (v, None) \<Rightarrow> (saved, Some TypeError)
               | (v, Some e) \<Rightarrow> (saved, Some e))
            else (saved, Some IndexError)
        | PDict kvs \<Rightarrow> (saved, Some KeyError)
        | _ \<Rightarrow> (saved, Some TypeError))
     of
       (saved1, None) \<Rightarrow> save_list saved1 (Suc i) elems target_path
     | (saved1, Some IndexError) \<Rightarrow>
         (case saved1 of
            PList xs \<Rightarrow>
              (case select_and_save_field (defaultdict_or_array elem) elem target_path of
                 (v, None) \<Rightarrow> save_list (PList (xs @ [v])) (Suc i) elems target_path
               | (v, Some e) \<Rightarrow> (saved1, Some e))
          | _ \<Rightarrow> (saved1, Some AttributeError))
     | (saved1, Some e) \<Rightarrow> (saved1, Some e))"
| "save_dict saved [] target_path = (saved, None)"
| "save_dict saved ((key, val) # items) target_path =
    (case target_path of
       [] \<Rightarrow> (saved, Some IndexError)
     | level # levels \<Rightarrow>
         if key = level then
           (case saved of
              PDict kvs \<Rightarrow>
                (let kvs1 = (if key \<in> set (map fst kvs) then kvs
                             else AList.update key (defaultdict_or_array val) kvs)
                 in case map_of kvs1 key of
                      None \<Rightarrow> (PDict kvs1, Some KeyError)
                    | Some cur \<Rightarrow>
                        (case select_and_save_field cur val levels of
                           (v, None) \<Rightarrow>
                             save_dict (PDict (AList.update key v kvs1)) items target_path
                         | (v, Some e) \<Rightarrow> (PDict (AList.update key v kvs1), Some e)))
            | _ \<Rightarrow> (saved, Some TypeError))
         else save_dict saved items target_path)"

text \<open>
  The use the docstring prescribes: start from an empty dictionary and pass the growing
  \<^verbatim>\<open>saved\<close> through one call for each wanted field path. An exception ends the loop.
\<close>

fun save_paths :: "pyval \<Rightarrow> pyval \<Rightarrow> FieldPath list \<Rightarrow> pyval \<times> py_error option" where
  "save_paths saved row [] = (saved, None)"
| "save_paths saved row (target_path # paths) =
     (case select_and_save_field saved row target_path of
        (saved1, None) \<Rightarrow> save_paths saved1 row paths
      | (saved1, Some e) \<Rightarrow> (saved1, Some e))"

subsection \<open>\<^verbatim>\<open>remove_empty_containers\<close>\<close>

lemma size_list_snd_enumerate:
  "size_list (\<lambda>p. size (snd p)) (enumerate n xs) = size_list size xs"
  by (induction xs arbitrary: n) auto

lemma size_list_rev: "size_list f (rev xs) = size_list f xs"
  by (induction xs) auto

lemma size_list_snd_le:
  "size_list (\<lambda>p. size (snd p)) (kvs :: (string \<times> pyval) list)
     \<le> size_list (size_prod (\<lambda>_. 0) size) kvs"
  by (induction kvs) auto

text \<open>
  The function updates \<^verbatim>\<open>row\<close> in place and returns it.
  \<open>prune_dict_loop\<close> is the loop over \<^verbatim>\<open>row.copy().items()\<close>: its first argument is
  what is left of the copy, its second the dictionary as it stands. The recursive call
  changes the nested value in place, so the dictionary holds the pruned value under the
  key; \<^verbatim>\<open>del row[key]\<close> removes the key.
  \<open>prune_list_loop\<close> is the loop over \<^verbatim>\<open>reversed(list(enumerate(row)))\<close>;
  \<^verbatim>\<open>row.pop(index)\<close> removes the element at \<open>index\<close>, which is in range because the
  loop runs from the last index down (lemma \<open>prune_list_loop_eq\<close> below follows the
  list through the loop).
\<close>

function (sequential) remove_empty_containers :: "pyval \<Rightarrow> pyval"
and prune_dict_loop ::
  "(string \<times> pyval) list \<Rightarrow> (string \<times> pyval) list \<Rightarrow> (string \<times> pyval) list"
and prune_list_loop :: "(nat \<times> pyval) list \<Rightarrow> pyval list \<Rightarrow> pyval list"
where
  "remove_empty_containers (PDict items) = PDict (prune_dict_loop items items)"
| "remove_empty_containers (PList elems) =
     PList (prune_list_loop (rev (enumerate 0 elems)) elems)"
| "remove_empty_containers v = v"
| "prune_dict_loop [] row = row"
| "prune_dict_loop ((key, val) # rest) row =
     (let val1 = (if is_container val then remove_empty_containers val else val);
          row1 = AList.update key val1 row
      in if is_empty_container val1
         then prune_dict_loop rest (AList.delete key row1)
         else prune_dict_loop rest row1)"
| "prune_list_loop [] row = row"
| "prune_list_loop ((index, elem) # rest) row =
     (let elem1 = (if is_container elem then remove_empty_containers elem else elem);
          row1 = row[index := elem1]
      in if is_empty_container elem1
         then prune_list_loop rest (take index row1 @ drop (Suc index) row1)
         else prune_list_loop rest row1)"
  by pat_completeness auto
termination
proof (relation "measure (\<lambda>x. case x of
      Inl v \<Rightarrow> 2 * size v + 1
    | Inr (Inl (items, row)) \<Rightarrow> 2 * size_list (\<lambda>p. size (snd p)) items
    | Inr (Inr (ixs, row)) \<Rightarrow> 2 * size_list (\<lambda>p. size (snd p)) ixs)", goal_cases)
  case 1
  then show ?case by simp
next
  case (2 items)
  then show ?case using size_list_snd_le [of items] by simp
next
  case (3 elems)
  then show ?case by (simp add: size_list_rev size_list_snd_enumerate)
qed auto

subsection \<open>The filter on one row\<close>

text \<open>
  Modelled from the spec: \<^verbatim>\<open>filter_data_categories\<close> of
  \<^verbatim>\<open>fidesops/task/graph_task.py\<close> is not among the sources. Section 4.H of the
  specification: for every row, walk the matching field paths and copy values into an
  accumulator (the empty dictionary, as the docstring of \<^verbatim>\<open>select_and_save_field\<close>
  says), then remove empty objects and arrays from the accumulator.
\<close>

definition filter_row :: "FieldPath list \<Rightarrow> pyval \<Rightarrow> py_error + pyval" where
  "filter_row target_field_paths row =
     (case save_paths (PDict []) row target_field_paths of
        (saved, None) \<Rightarrow> Inr (remove_empty_containers saved)
      | (saved, Some e) \<Rightarrow> Inl e)"

subsection \<open>Well-formed values, and what the two functions compute\<close>

text \<open>A Python dictionary has each key once, at every depth.\<close>

fun wf :: "pyval \<Rightarrow> bool" where
  "wf (PDict kvs) = (distinct (map fst kvs) \<and> (\<forall>v \<in> set (map snd kvs). wf v))"
| "wf (PList xs) = (\<forall>x \<in> set xs. wf x)"
| "wf v = True"

text \<open>Pruning, by recursion on the value: the emptied members are filtered out.\<close>

fun prune :: "pyval \<Rightarrow> pyval" where
  "prune (PDict kvs) =
     PDict (filter (\<lambda>kv. \<not> is_empty_container (snd kv)) (map (\<lambda>kv. (fst kv, prune (snd kv))) kvs))"
| "prune (PList xs) = PList (filter (\<lambda>x. \<not> is_empty_container x) (map prune xs))"
| "prune v = v"

text \<open>No container inside the value is empty (the value itself may be).\<close>

fun no_empty_inside :: "pyval \<Rightarrow> bool" where
  "no_empty_inside (PDict kvs) =
     (\<forall>v \<in> set (map snd kvs). \<not> is_empty_container v \<and> no_empty_inside v)"
| "no_empty_inside (PList xs) = (\<forall>x \<in> set xs. \<not> is_empty_container x \<and> no_empty_inside x)"
| "no_empty_inside v = True"

text \<open>
  The scalar values found along a field path: a field path names dictionary keys only,
  and a list stands for all of its elements, as in \<^verbatim>\<open>select_and_save_field\<close>.
\<close>

fun leaves_at :: "FieldPath \<Rightarrow> pyval \<Rightarrow> pyval list"
and leaves_items :: "FieldPath \<Rightarrow> (string \<times> pyval) list \<Rightarrow> pyval list"
where
  "leaves_at p (PList xs) = concat (map (leaves_at p) xs)"
| "leaves_at p (PDict kvs) = leaves_items p kvs"
| "leaves_at p v = (if p = [] then [v] else [])"
| "leaves_items p [] = []"
| "leaves_items p ((k, v) # kvs) =
     (case p of [] \<Rightarrow> []
      | level # levels \<Rightarrow> if k = level then leaves_at levels v else leaves_items p kvs)"

text \<open>
  The walk of \<^verbatim>\<open>select_and_save_field\<close> along a path raises no \<^verbatim>\<open>IndexError\<close>: it
  never stands on a dictionary with items when the path is used up.
\<close>

fun path_ok :: "FieldPath \<Rightarrow> pyval \<Rightarrow> bool"
and path_ok_items :: "FieldPath \<Rightarrow> (string \<times> pyval) list \<Rightarrow> bool"
where
  "path_ok p (PList xs) = (\<forall>x \<in> set xs. path_ok p x)"
| "path_ok p (PDict kvs) = path_ok_items p kvs"
| "path_ok p v = True"
| "path_ok_items p [] = True"
| "path_ok_items p ((k, v) # kvs) =
     (case p of [] \<Rightarrow> False
      | level # levels \<Rightarrow> (if k = level then path_ok levels v else True) \<and> path_ok_items p kvs)"

text \<open>
  What \<^verbatim>\<open>saved\<close> holds once the paths \<open>ps\<close> have been walked over a value, starting
  from the empty container: the keys that some path names, in the order in which the
  paths first name them, each with what the paths' tails save of its value.
\<close>

definition sub_paths :: "string \<Rightarrow> FieldPath list \<Rightarrow> FieldPath list" where
  "sub_paths k ps = map tl (filter (\<lambda>p. p \<noteq> [] \<and> hd p = k) ps)"

definition first_occurrences :: "'a list \<Rightarrow> 'a list" where
  "first_occurrences xs = rev (remdups (rev xs))"

definition touched :: "FieldPath list \<Rightarrow> (string \<times> pyval) list \<Rightarrow> string list" where
  "touched ps kvs =
     first_occurrences (filter (\<lambda>k. k \<in> set (map fst kvs)) (map hd (filter (\<lambda>p. p \<noteq> []) ps)))"

lemma size_map_of_less:
  "k \<in> set (map fst kvs) \<Longrightarrow>
     size (the (map_of kvs k)) < Suc (size_list (size_prod (\<lambda>_. 0) size) (kvs :: (string \<times> pyval) list))"
proof (induction kvs)
  case Nil
  then show ?case by simp
next
  case (Cons kv kvs)
  show ?case
  proof (cases "fst kv = k")
    case True
    then show ?thesis by (cases kv) simp
  next
    case False
    with Cons.prems have "k \<in> set (map fst kvs)" by auto
    with Cons.IH False show ?thesis by (cases kv) simp
  qed
qed

lemma size_member_le: "x \<in> set xs \<Longrightarrow> size (x :: pyval) \<le> size_list size xs"
  by (induction xs) auto

function (sequential) proj :: "FieldPath list \<Rightarrow> pyval \<Rightarrow> pyval" where
  "proj ps (PList xs) = (if ps = [] then PList [] else PList (map (proj ps) xs))"
| "proj ps (PDict kvs) =
     PDict (map (\<lambda>k. (k, proj (sub_paths k ps) (the (map_of kvs k)))) (touched ps kvs))"
| "proj ps v = v"
  by pat_completeness auto
termination
proof (relation "measure (\<lambda>(ps, v). size v)", goal_cases)
  case 1
  then show ?case by simp
next
  case (2 ps xs x)
  then show ?case using size_member_le [of x xs] by simp
next
  case (3 ps kvs k)
  then have "k \<in> set (map fst kvs)"
    by (auto simp: touched_def first_occurrences_def)
  then show ?case using size_map_of_less [of k kvs] by simp
qed

text \<open>
  A call of \<^verbatim>\<open>select_and_save_field\<close> on what the paths \<open>ps\<close> have saved so far does
  what the projection says: it returns the projection onto \<open>ps\<close> and \<open>p\<close> when the walk
  along \<open>p\<close> is fine, and raises \<^verbatim>\<open>IndexError\<close> otherwise.
\<close>

definition saves :: "pyval \<times> py_error option \<Rightarrow> FieldPath list \<Rightarrow> FieldPath \<Rightarrow> pyval \<Rightarrow> bool" where
  "saves res ps p v =
     (if path_ok p v then res = (proj (ps @ [p]) v, None) else snd res = Some IndexError)"

definition all_ok :: "FieldPath list \<Rightarrow> pyval \<Rightarrow> bool" where
  "all_ok ps v = (\<forall>p \<in> set ps. path_ok p v)"

section \<open>Fields, data categories and the field paths a request targets\<close>

text \<open>
  Modelled from the spec: the graph model (\<^verbatim>\<open>fidesops/graph/config.py\<close>) and
  \<^verbatim>\<open>filter_data_categories\<close> (\<^verbatim>\<open>fidesops/task/graph_task.py\<close>) are not among the
  sources. Section 3 of the specification: a field has a name, a primary-key flag, data
  categories (dotted strings), an optional identity marker and optional nested children;
  a field path is the sequence of field names from the collection down to a field.
  Section 4.H: a field matches if some requested category is a prefix of some category
  on the field, by whole dotted segments and not by characters.
\<close>

datatype field =
  Field (field_name: string) (primary_key: bool) (data_categories: "string list")
    (identity: "string option") (children: "field list")

fun field_paths :: "FieldPath \<Rightarrow> field \<Rightarrow> (FieldPath \<times> string list) list" where
  "field_paths pre (Field n pk cats idn chs) =
     (pre @ [n], cats) # concat (map (field_paths (pre @ [n])) chs)"

definition collection_field_paths :: "field list \<Rightarrow> (FieldPath \<times> string list) list" where
  "collection_field_paths flds = concat (map (field_paths []) flds)"

text \<open>The segments of a dotted category, as \<^verbatim>\<open>category.split('.')\<close> gives them.\<close>

fun split_dots :: "string \<Rightarrow> string list" where
  "split_dots [] = [[]]"
| "split_dots (c # cs) =
     (if c = CHR ''.'' then [] # split_dots cs
      else (case split_dots cs of [] \<Rightarrow> [[c]] | s # ss \<Rightarrow> (c # s) # ss))"

definition category_matches :: "string \<Rightarrow> string \<Rightarrow> bool" where
  "category_matches requested cat = prefix (split_dots requested) (split_dots cat)"

definition field_matches :: "string list \<Rightarrow> string list \<Rightarrow> bool" where
  "field_matches target_categories cats =
     (\<exists>c \<in> set target_categories. \<exists>d \<in> set cats. category_matches c d)"

definition target_field_paths :: "string list \<Rightarrow> field list \<Rightarrow> FieldPath list" where
  "target_field_paths target_categories flds =
     remdups (map fst (filter (\<lambda>pc. field_matches target_categories (snd pc))
                         (collection_field_paths flds)))"

text \<open>The filter of one row of a collection for a set of requested categories.\<close>

definition filter_row_categories :: "string list \<Rightarrow> field list \<Rightarrow> pyval \<Rightarrow> py_error + pyval" where
  "filter_row_categories target_categories flds row =
     filter_row (target_field_paths target_categories flds) row"

text \<open>
  Two readings of "the filtered row holds exactly the values of the selected fields".
  \<open>exactly_selected_values\<close>: at every field path the result holds the scalars of the row
  if the path is a target path, and none otherwise. \<open>no_early_scalar\<close>: the row has the
  shape the target paths expect, it holds no scalar at a proper prefix of a target path.
\<close>

definition exactly_selected_values :: "FieldPath list \<Rightarrow> pyval \<Rightarrow> pyval \<Rightarrow> bool" where
  "exactly_selected_values paths row out =
     (\<forall>q. leaves_at q out = (if q \<in> set paths then leaves_at q row else []))"

definition no_early_scalar :: "FieldPath list \<Rightarrow> pyval \<Rightarrow> bool" where
  "no_early_scalar paths row =
     list_all (\<lambda>t. list_all (\<lambda>q. q = t \<or> leaves_at q row = []) (prefixes t)) paths"

section \<open>Traversal nodes, policies and statements\<close>

text \<open>
  Modelled from the spec: the graph and traversal model, the policy model and the query
  configuration (\<^verbatim>\<open>fidesops/graph\<close>, \<^verbatim>\<open>fidesops/models/policy.py\<close>,
  \<^verbatim>\<open>fidesops/service/connectors/query_config.py\<close>) are not among the sources. Section 3
  of the specification: a field address is (dataset, collection, field path); an edge is
  a pair of field addresses, source and destination; a traversal node wraps a collection
  and carries its incoming edges; a policy has rules, a rule has an action, a masking
  strategy (erasure only) and targets, each naming a data category.
\<close>

type_synonym CollectionAddress = "string \<times> string"

datatype FieldAddress =
  FieldAddress (fa_dataset: string) (fa_collection: string) (fa_field_path: FieldPath)

type_synonym Edge = "FieldAddress \<times> FieldAddress"

record TraversalNode =
  node_address :: CollectionAddress
  node_fields :: "field list"
  incoming_edges :: "Edge list"

record Rule =
  action :: ActionType
  masking_strategy :: "pyval \<Rightarrow> pyval"
  targets :: "string list"

type_synonym Policy = "Rule list"

record PrivacyRequest =
  request_id :: string

text \<open>
  A statement with its bound parameters: a SELECT of all columns of a collection with
  one \<open>field IN (values)\<close> clause for each input field, the clauses joined by OR; an
  UPDATE of a collection that sets the masked fields where the primary key matches.
\<close>

datatype statement =
  Select CollectionAddress "(string \<times> pyval list) list"
  | Update CollectionAddress "(string \<times> pyval) list" "(string \<times> pyval) list"

text \<open>
  The query configuration of a node: the two generators the connector calls. A dialect
  overrides \<^verbatim>\<open>query_config\<close>, so the connector takes it as a parameter.
\<close>

record 'stmt SQLQueryConfig =
  generate_query :: "(string \<times> pyval) list \<Rightarrow> Policy \<Rightarrow> 'stmt option"
  generate_update_stmt :: "(string \<times> pyval) list \<Rightarrow> Policy \<Rightarrow> PrivacyRequest \<Rightarrow> 'stmt option"

subsection \<open>The generators, from the specification\<close>

text \<open>
  Modelled from the spec (section 4.E), \<^verbatim>\<open>generate_query\<close>: \<open>input_data\<close> maps a
  destination field name to the list of values seen for it; the statement has a clause
  for each field that an incoming edge of the node seeds and whose list holds a value
  other than \<^verbatim>\<open>None\<close>; with no such field the result is \<^verbatim>\<open>None\<close>.
\<close>

fun field_path_name :: "FieldPath \<Rightarrow> string" where
  "field_path_name [] = []"
| "field_path_name [level] = level"
| "field_path_name (level # levels) = level @ ''.'' @ field_path_name levels"

definition query_fields :: "TraversalNode \<Rightarrow> string list" where
  "query_fields node = map (\<lambda>e. field_path_name (fa_field_path (snd e))) (incoming_edges node)"

fun non_none_values :: "pyval \<Rightarrow> pyval list" where
  "non_none_values (PList vs) = filter (\<lambda>v. v \<noteq> PNone) vs"
| "non_none_values v = []"

definition filtered_input :: "TraversalNode \<Rightarrow> (string \<times> pyval) list \<Rightarrow> (string \<times> pyval list) list" where
  "filtered_input node input_data =
     filter (\<lambda>kv. snd kv \<noteq> [])
       (map (\<lambda>kv. (fst kv, non_none_values (snd kv)))
          (filter (\<lambda>kv. fst kv \<in> set (query_fields node)) input_data))"

definition spec_generate_query ::
  "TraversalNode \<Rightarrow> (string \<times> pyval) list \<Rightarrow> Policy \<Rightarrow> statement option" where
  "spec_generate_query node input_data policy =
     (if filtered_input node input_data = [] then None
      else Some (Select (node_address node) (filtered_input node input_data)))"

text \<open>
  Modelled from the spec (section 4.E), \<^verbatim>\<open>generate_update_stmt\<close>: the statement needs a
  primary-key field of the collection with a value other than \<^verbatim>\<open>None\<close> in the row;
  every field of the row with a data category that a target of an erasure rule matches
  is set to what the rule's masking strategy makes of its value; with no such field, or
  no such key, the result is \<^verbatim>\<open>None\<close>.
\<close>

definition primary_key_values :: "field list \<Rightarrow> (string \<times> pyval) list \<Rightarrow> (string \<times> pyval) list" where
  "primary_key_values flds row =
     filter (\<lambda>kv. snd kv \<noteq> PNone)
       (List.map_filter
          (\<lambda>f. if primary_key f then map_option (Pair (field_name f)) (map_of row (field_name f))
                else None) flds)"

definition erasure_rule_for :: "Policy \<Rightarrow> field \<Rightarrow> Rule option" where
  "erasure_rule_for policy f =
     find (\<lambda>r. action r = erasure \<and> field_matches (targets r) (data_categories f)) policy"

definition masked_values :: "Policy \<Rightarrow> field list \<Rightarrow> (string \<times> pyval) list \<Rightarrow> (string \<times> pyval) list" where
  "masked_values policy flds row =
     List.map_filter
       (\<lambda>f. case (erasure_rule_for policy f, map_of row (field_name f)) of
               (Some r, Some v) \<Rightarrow> Some (field_name f, masking_strategy r v)
             | _ \<Rightarrow> None) flds"

definition spec_generate_update_stmt ::
  "TraversalNode \<Rightarrow> (string \<times> pyval) list \<Rightarrow> Policy \<Rightarrow> PrivacyRequest \<Rightarrow> statement option" where
  "spec_generate_update_stmt node row policy request =
     (if primary_key_values (node_fields node) row = []
         \<or> masked_values policy (node_fields node) row = [] then None
      else Some (Update (node_address node) (masked_values policy (node_fields node) row)
                   (primary_key_values (node_fields node) row)))"

definition spec_query_config :: "TraversalNode \<Rightarrow> statement SQLQueryConfig" where
  "spec_query_config node =
     \<lparr>generate_query = spec_generate_query node,
      generate_update_stmt = spec_generate_update_stmt node\<rparr>"

section \<open>The SQL connector\<close>

text \<open>
  \<^verbatim>\<open>fidesops/service/connectors/sql_connector.py\<close>. The connector holds the engine once
  it is made (\<open>db_client\<close>) and talks to a data store; the model keeps the store and the
  list of the calls of \<^verbatim>\<open>connection.execute\<close>, each with what it returned.
  What the store does with a statement is a parameter \<open>exec\<close>: opening the connection
  and executing the statement gives a cursor result or raises, and changes the store.
\<close>

record cursor_result =
  columns :: "string list"
  tuples :: "pyval list list"
  rowcount :: int

record ('stmt, 'db) SQLConnector =
  db_client :: bool
  store :: 'db
  calls :: "('stmt \<times> (py_error + cursor_result)) list"

text \<open>
  Modelled from the spec: \<^verbatim>\<open>BaseConnector.client\<close> is not among the sources. Section 5:
  the engine of a dataset is made once and shared; making it executes no statement.
\<close>

definition client :: "('stmt, 'db) SQLConnector \<Rightarrow> ('stmt, 'db) SQLConnector" where
  "client self = self\<lparr>db_client := True\<rparr>"

text \<open>\<^verbatim>\<open>with client.connect() as connection: connection.execute(stmt)\<close>\<close>

definition connection_execute ::
  "('stmt \<Rightarrow> 'db \<Rightarrow> (py_error + cursor_result) \<times> 'db) \<Rightarrow> 'stmt \<Rightarrow>
   ('stmt, 'db) SQLConnector \<Rightarrow> (py_error + cursor_result) \<times> ('stmt, 'db) SQLConnector"
where
  "connection_execute exec stmt self =
     (case exec stmt (store self) of
        (res, db) \<Rightarrow> (res, self\<lparr>store := db, calls := calls self @ [(stmt, res)]\<rparr>))"

text \<open>
  \<^verbatim>\<open>cursor_result_to_rows\<close>: the dictionary
  \<^verbatim>\<open>{columns[i].name: row_tuple[i] for i in range(l)}\<close> of each tuple; a tuple shorter
  than the column list raises \<^verbatim>\<open>IndexError\<close>.
\<close>

fun tuple_to_row ::
  "string list \<Rightarrow> pyval list \<Rightarrow> (string \<times> pyval) list \<Rightarrow> py_error + (string \<times> pyval) list"
where
  "tuple_to_row [] row_tuple acc = Inr acc"
| "tuple_to_row (c # cs) [] acc = Inl IndexError"
| "tuple_to_row (c # cs) (v # vs) acc = tuple_to_row cs vs (AList.update c v acc)"

fun tuples_to_rows ::
  "string list \<Rightarrow> pyval list list \<Rightarrow> (string \<times> pyval) list list \<Rightarrow>
   py_error + (string \<times> pyval) list list"
where
  "tuples_to_rows cols [] rows = Inr rows"
| "tuples_to_rows cols (row_tuple # rest) rows =
     (case tuple_to_row cols row_tuple [] of
        Inl e \<Rightarrow> Inl e
      | Inr row \<Rightarrow> tuples_to_rows cols rest (rows @ [row]))"

definition cursor_result_to_rows :: "cursor_result \<Rightarrow> py_error + (string \<times> pyval) list list" where
  "cursor_result_to_rows results = tuples_to_rows (columns results) (tuples results) []"

definition retrieve_data ::
  "(TraversalNode \<Rightarrow> 'stmt SQLQueryConfig) \<Rightarrow>
   ('stmt \<Rightarrow> 'db \<Rightarrow> (py_error + cursor_result) \<times> 'db) \<Rightarrow>
   ('stmt, 'db) SQLConnector \<Rightarrow> TraversalNode \<Rightarrow> Policy \<Rightarrow> (string \<times> pyval) list \<Rightarrow>
   (py_error + (string \<times> pyval) list list) \<times> ('stmt, 'db) SQLConnector"
where
  "retrieve_data query_config exec self node policy input_data =
     (let qc = query_config node;
          self1 = client self;
          stmt = generate_query qc input_data policy
      in case stmt of
           None \<Rightarrow> (Inr [], self1)
         | Some s \<Rightarrow>
             (case connection_execute exec s self1 of
                (Inl e, self2) \<Rightarrow> (Inl e, self2)
              | (Inr results, self2) \<Rightarrow> (cursor_result_to_rows results, self2)))"

text \<open>The loop \<^verbatim>\<open>for row in rows\<close> of \<^verbatim>\<open>mask_data\<close>, with the count so far.\<close>

fun mask_rows ::
  "'stmt SQLQueryConfig \<Rightarrow> ('stmt \<Rightarrow> 'db \<Rightarrow> (py_error + cursor_result) \<times> 'db) \<Rightarrow>
   Policy \<Rightarrow> PrivacyRequest \<Rightarrow> (string \<times> pyval) list list \<Rightarrow> int \<Rightarrow>
   ('stmt, 'db) SQLConnector \<Rightarrow> (py_error + int) \<times> ('stmt, 'db) SQLConnector"
where
  "mask_rows qc exec policy request [] update_ct self = (Inr update_ct, self)"
| "mask_rows qc exec policy request (row # rows) update_ct self =
     (case generate_update_stmt qc row policy request of
        None \<Rightarrow> mask_rows qc exec policy request rows update_ct self
      | Some update_stmt \<Rightarrow>
          (case connection_execute exec update_stmt self of
             (Inl e, self1) \<Rightarrow> (Inl e, self1)
           | (Inr results, self1) \<Rightarrow>
               mask_rows qc exec policy request rows (update_ct + rowcount results) self1))"

definition mask_data ::
  "(TraversalNode \<Rightarrow> 'stmt SQLQueryConfig) \<Rightarrow>
   ('stmt \<Rightarrow> 'db \<Rightarrow> (py_error + cursor_result) \<times> 'db) \<Rightarrow>
   ('stmt, 'db) SQLConnector \<Rightarrow> TraversalNode \<Rightarrow> Policy \<Rightarrow> PrivacyRequest \<Rightarrow>
   (string \<times> pyval) list list \<Rightarrow> (py_error + int) \<times> ('stmt, 'db) SQLConnector"
where
  "mask_data query_config exec self node policy request rows =
     mask_rows (query_config node) exec policy request rows 0 (client self)"

text \<open>The affected-row count of a call of \<^verbatim>\<open>connection.execute\<close> (none when it raised).\<close>

definition call_rowcount :: "'stmt \<times> (py_error + cursor_result) \<Rightarrow> int" where
  "call_rowcount c = (case snd c of Inl e \<Rightarrow> 0 | Inr results \<Rightarrow> rowcount results)"

text \<open>
  The input of a node has no field with a value to look for: every key is either no
  seeded field of the node or comes with no list, an empty list, or \<^verbatim>\<open>None\<close>s only.
\<close>

definition no_usable_input :: "TraversalNode \<Rightarrow> (string \<times> pyval) list \<Rightarrow> bool" where
  "no_usable_input node input_data =
     list_all (\<lambda>kv. fst kv \<notin> set (query_fields node) \<or> non_none_values (snd kv) = []) input_data"

section \<open>The task execution engine\<close>

text \<open>
  Modelled from the spec: \<^verbatim>\<open>fidesops/task/graph_task.py\<close> (the tasks, the retry loop,
  \<^verbatim>\<open>run_access_request\<close>, \<^verbatim>\<open>run_erasure\<close>) is not among the sources. Section 4.G of the
  specification gives the protocol of a node: record \<^verbatim>\<open>in_processing\<close>; build the input
  from the rows the upstream tasks published; call the connector; on an exception record
  \<^verbatim>\<open>retrying\<close> and retry, up to \<^verbatim>\<open>TASK_RETRY_COUNT\<close> times, then record \<^verbatim>\<open>error\<close> and
  publish an empty result; on success record \<^verbatim>\<open>complete\<close> and publish the rows (access)
  or the count (erasure). Section 5 permits a single-threaded schedule that keeps the
  dependency order: the tasks run one after the other in the traversal order. The delay
  between attempts changes nothing the model keeps.

  The connector is a parameter that threads its own state; \<open>retrieve_data\<close> and
  \<open>mask_data\<close> above are instances. The state of a run holds the connector's state, the
  rows each finished task published (the seed as the one row of ROOT), the two result
  maps, the input each task was given, the outcome of each call of the connector, and
  the execution logs.
\<close>

definition ROOT_ADDRESS :: CollectionAddress where
  "ROOT_ADDRESS = (''__ROOT__'', ''__ROOT__'')"

record 'c task_state =
  connector_state :: 'c
  published :: "(CollectionAddress \<times> (string \<times> pyval) list list) list"
  access_results :: "(CollectionAddress \<times> (string \<times> pyval) list list) list"
  erasure_results :: "(CollectionAddress \<times> int) list"
  task_inputs :: "(CollectionAddress \<times> (string \<times> pyval) list) list"
  task_attempts :: "(CollectionAddress \<times> bool) list"
  task_logs :: "execution_log list"

definition initial_state :: "'c \<Rightarrow> (string \<times> pyval) list \<Rightarrow> execution_log list \<Rightarrow> 'c task_state" where
  "initial_state c seed previous_logs =
     \<lparr>connector_state = c, published = [(ROOT_ADDRESS, [seed])], access_results = [],
      erasure_results = [], task_inputs = [], task_attempts = [], task_logs = previous_logs\<rparr>"

fun error_name :: "py_error \<Rightarrow> string" where
  "error_name IndexError = ''IndexError''"
| "error_name KeyError = ''KeyError''"
| "error_name TypeError = ''TypeError''"
| "error_name AttributeError = ''AttributeError''"
| "error_name OperationalError = ''OperationalError''"

definition add_log ::
  "PrivacyRequest \<Rightarrow> TraversalNode \<Rightarrow> ActionType \<Rightarrow> execution_status \<Rightarrow> string option \<Rightarrow>
   'c task_state \<Rightarrow> 'c task_state"
where
  "add_log request node act st msg s =
     s\<lparr>task_logs := task_logs s @
        [\<lparr>privacy_request_id = request_id request,
          dataset_name = fst (node_address node),
          collection_name = snd (node_address node),
          action_type = act, status = st, message = msg,
          updated_at = length (task_logs s)\<rparr>]\<rparr>"

definition record_attempt :: "TraversalNode \<Rightarrow> bool \<Rightarrow> 'c \<Rightarrow> 'c task_state \<Rightarrow> 'c task_state" where
  "record_attempt node succeeded c s =
     s\<lparr>connector_state := c, task_attempts := task_attempts s @ [(node_address node, succeeded)]\<rparr>"

text \<open>
  The retry loop, with the number of retries that are left: a call that returns ends the
  loop with \<^verbatim>\<open>complete\<close>; a call that raises is followed by \<^verbatim>\<open>retrying\<close> and another
  call while retries are left, and by \<^verbatim>\<open>error\<close> when none is.
\<close>

fun run_with_retries ::
  "PrivacyRequest \<Rightarrow> TraversalNode \<Rightarrow> ActionType \<Rightarrow> ('c \<Rightarrow> (py_error + 'r) \<times> 'c) \<Rightarrow> nat \<Rightarrow>
   'c task_state \<Rightarrow> 'r option \<times> 'c task_state"
where
  "run_with_retries request node act call 0 s =
     (case call (connector_state s) of
        (Inr r, c) \<Rightarrow> (Some r, add_log request node act complete None (record_attempt node True c s))
      | (Inl e, c) \<Rightarrow>
          (None, add_log request node act error (Some (error_name e))
                   (record_attempt node False c s)))"
| "run_with_retries request node act call (Suc n) s =
     (case call (connector_state s) of
        (Inr r, c) \<Rightarrow> (Some r, add_log request node act complete None (record_attempt node True c s))
      | (Inl e, c) \<Rightarrow>
          run_with_retries request node act call n
            (add_log request node act retrying None (record_attempt node False c s)))"

subsection \<open>The input of a task\<close>

text \<open>
  For each incoming edge, the values of the source field in the rows the source
  collection published; the values for one destination field are put together, each
  value once, in the order of first appearance.
\<close>

definition rows_of ::
  "(CollectionAddress \<times> (string \<times> pyval) list list) list \<Rightarrow> CollectionAddress \<Rightarrow>
   (string \<times> pyval) list list"
where
  "rows_of pub addr = (case map_of pub addr of None \<Rightarrow> [] | Some rows \<Rightarrow> rows)"

definition source_address :: "Edge \<Rightarrow> CollectionAddress" where
  "source_address e = (fa_dataset (fst e), fa_collection (fst e))"

definition destination_name :: "Edge \<Rightarrow> string" where
  "destination_name e = field_path_name (fa_field_path (snd e))"

definition edge_values ::
  "(CollectionAddress \<times> (string \<times> pyval) list list) list \<Rightarrow> Edge \<Rightarrow> pyval list"
where
  "edge_values pub e =
     concat (map (\<lambda>row. leaves_at (fa_field_path (fst e)) (PDict row))
               (rows_of pub (source_address e)))"

definition build_input ::
  "TraversalNode \<Rightarrow> (CollectionAddress \<times> (string \<times> pyval) list list) list \<Rightarrow>
   (string \<times> pyval) list"
where
  "build_input node pub =
     map (\<lambda>k. (k, PList (first_occurrences
                   (concat (map (edge_values pub)
                              (filter (\<lambda>e. destination_name e = k) (incoming_edges node)))))))
         (first_occurrences (map destination_name (incoming_edges node)))"

subsection \<open>The access pass\<close>

definition access_task ::
  "(TraversalNode \<Rightarrow> Policy \<Rightarrow> (string \<times> pyval) list \<Rightarrow> 'c \<Rightarrow>
      (py_error + (string \<times> pyval) list list) \<times> 'c) \<Rightarrow>
   ExecutionSettings \<Rightarrow> PrivacyRequest \<Rightarrow> Policy \<Rightarrow> TraversalNode \<Rightarrow>
   'c task_state \<Rightarrow> 'c task_state"
where
  "access_task retrieve cfg request policy node s =
     (let s1 = add_log request node access in_processing None s;
          input_data = build_input node (published s1);
          s2 = s1\<lparr>task_inputs := task_inputs s1 @ [(node_address node, input_data)]\<rparr>
      in case run_with_retries request node access (retrieve node policy input_data)
                (nat (TASK_RETRY_COUNT cfg)) s2 of
           (Some rows, s3) \<Rightarrow>
             s3\<lparr>published := published s3 @ [(node_address node, rows)],
                access_results := access_results s3 @ [(node_address node, rows)]\<rparr>
         | (None, s3) \<Rightarrow> s3\<lparr>published := published s3 @ [(node_address node, [])]\<rparr>)"

fun run_access_tasks ::
  "(TraversalNode \<Rightarrow> Policy \<Rightarrow> (string \<times> pyval) list \<Rightarrow> 'c \<Rightarrow>
      (py_error + (string \<times> pyval) list list) \<times> 'c) \<Rightarrow>
   ExecutionSettings \<Rightarrow> PrivacyRequest \<Rightarrow> Policy \<Rightarrow> TraversalNode list \<Rightarrow>
   'c task_state \<Rightarrow> 'c task_state"
where
  "run_access_tasks retrieve cfg request policy [] s = s"
| "run_access_tasks retrieve cfg request policy (node # nodes) s =
     run_access_tasks retrieve cfg request policy nodes
       (access_task retrieve cfg request policy node s)"

definition run_access_request ::
  "(TraversalNode \<Rightarrow> Policy \<Rightarrow> (string \<times> pyval) list \<Rightarrow> 'c \<Rightarrow>
      (py_error + (string \<times> pyval) list list) \<times> 'c) \<Rightarrow>
   ExecutionSettings \<Rightarrow> PrivacyRequest \<Rightarrow> Policy \<Rightarrow> TraversalNode list \<Rightarrow>
   (string \<times> pyval) list \<Rightarrow> 'c \<Rightarrow> 'c task_state"
where
  "run_access_request retrieve cfg request policy order seed c =
     run_access_tasks retrieve cfg request policy order (initial_state c seed [])"

subsection \<open>The erasure pass\<close>

text \<open>
  Section 3: erasure requires a field with \<^verbatim>\<open>primary_key=true\<close> in the collection;
  without one the erasure of the collection is a no-op with a diagnostic log entry.
\<close>

definition NO_PRIMARY_KEY_MESSAGE :: string where
  "NO_PRIMARY_KEY_MESSAGE =
     ''No values were erased since no primary key was defined for this collection''"

definition erasure_task ::
  "(TraversalNode \<Rightarrow> Policy \<Rightarrow> PrivacyRequest \<Rightarrow> (string \<times> pyval) list list \<Rightarrow> 'c \<Rightarrow>
      (py_error + int) \<times> 'c) \<Rightarrow>
   ExecutionSettings \<Rightarrow> PrivacyRequest \<Rightarrow> Policy \<Rightarrow>
   (CollectionAddress \<times> (string \<times> pyval) list list) list \<Rightarrow> TraversalNode \<Rightarrow>
   'c task_state \<Rightarrow> 'c task_state"
where
  "erasure_task masker cfg request policy access_request_data node s =
     (let s1 = add_log request node erasure in_processing None s
      in if \<not> list_ex primary_key (node_fields node) then
           (add_log request node erasure complete (Some NO_PRIMARY_KEY_MESSAGE) s1)
             \<lparr>erasure_results := erasure_results s1 @ [(node_address node, 0)]\<rparr>
         else
           (case run_with_retries request node erasure
                   (masker node policy request (rows_of access_request_data (node_address node)))
                   (nat (TASK_RETRY_COUNT cfg)) s1 of
              (Some n, s2) \<Rightarrow> s2\<lparr>erasure_results := erasure_results s2 @ [(node_address node, n)]\<rparr>
            | (None, s2) \<Rightarrow> s2\<lparr>erasure_results := erasure_results s2 @ [(node_address node, 0)]\<rparr>))"

fun run_erasure_tasks ::
  "(TraversalNode \<Rightarrow> Policy \<Rightarrow> PrivacyRequest \<Rightarrow> (string \<times> pyval) list list \<Rightarrow> 'c \<Rightarrow>
      (py_error + int) \<times> 'c) \<Rightarrow>
   ExecutionSettings \<Rightarrow> PrivacyRequest \<Rightarrow> Policy \<Rightarrow>
   (CollectionAddress \<times> (string \<times> pyval) list list) list \<Rightarrow> TraversalNode list \<Rightarrow>
   'c task_state \<Rightarrow> 'c task_state"
where
  "run_erasure_tasks masker cfg request policy access_request_data [] s = s"
| "run_erasure_tasks masker cfg request policy access_request_data (node # nodes) s =
     run_erasure_tasks masker cfg request policy access_request_data nodes
       (erasure_task masker cfg request policy access_request_data node s)"

definition run_erasure ::
  "(TraversalNode \<Rightarrow> Policy \<Rightarrow> PrivacyRequest \<Rightarrow> (string \<times> pyval) list list \<Rightarrow> 'c \<Rightarrow>
      (py_error + int) \<times> 'c) \<Rightarrow>
   ExecutionSettings \<Rightarrow> PrivacyRequest \<Rightarrow> Policy \<Rightarrow> TraversalNode list \<Rightarrow>
   (string \<times> pyval) list \<Rightarrow>
   (CollectionAddress \<times> (string \<times> pyval) list list) list \<Rightarrow>
   execution_log list \<Rightarrow> 'c \<Rightarrow> 'c task_state"
where
  "run_erasure masker cfg request policy order seed access_request_data previous_logs c =
     run_erasure_tasks masker cfg request policy access_request_data order
       (initial_state c seed previous_logs)"

subsection \<open>Reading the logs of a node\<close>

definition logs_for :: "CollectionAddress \<Rightarrow> execution_log list \<Rightarrow> execution_log list" where
  "logs_for addr ls =
     filter (\<lambda>l. dataset_name l = fst addr \<and> collection_name l = snd addr) ls"

definition statuses_for :: "CollectionAddress \<Rightarrow> execution_log list \<Rightarrow> execution_status list" where
  "statuses_for addr ls = map status (logs_for addr ls)"

definition attempts_for :: "CollectionAddress \<Rightarrow> (CollectionAddress \<times> bool) list \<Rightarrow> bool list" where
  "attempts_for addr atts = map snd (filter (\<lambda>a. fst a = addr) atts)"

definition count_status :: "execution_status \<Rightarrow> execution_status list \<Rightarrow> nat" where
  "count_status st sts = length (filter (\<lambda>x. x = st) sts)"

definition no_primary_key_logs :: "CollectionAddress \<Rightarrow> execution_log list \<Rightarrow> execution_log list" where
  "no_primary_key_logs addr ls =
     filter (\<lambda>l. message l = Some NO_PRIMARY_KEY_MESSAGE) (logs_for addr ls)"

text \<open>The statuses of the entries of one pass (access or erasure) for a node.\<close>

definition action_statuses_for ::
  "ActionType \<Rightarrow> CollectionAddress \<Rightarrow> execution_log list \<Rightarrow> execution_status list" where
  "action_statuses_for act addr ls =
     map status (filter (\<lambda>l. action_type l = act) (logs_for addr ls))"

text \<open>A connector whose every call raises.\<close>

definition always_raises ::
  "(TraversalNode \<Rightarrow> Policy \<Rightarrow> (string \<times> pyval) list \<Rightarrow> 'c \<Rightarrow>
      (py_error + (string \<times> pyval) list list) \<times> 'c) \<Rightarrow> bool"
where
  "always_raises retrieve =
     (\<forall>node policy input_data c. \<exists>e. fst (retrieve node policy input_data c) = Inl e)"

definition mask_always_raises ::
  "(TraversalNode \<Rightarrow> Policy \<Rightarrow> PrivacyRequest \<Rightarrow> (string \<times> pyval) list list \<Rightarrow> 'c \<Rightarrow>
      (py_error + int) \<times> 'c) \<Rightarrow> bool"
where
  "mask_always_raises masker =
     (\<forall>node policy request rows c. \<exists>e. fst (masker node policy request rows c) = Inl e)"

text \<open>
  The sentence of the specification on a run with one retry and a connector that always
  raises, for the statuses logged for one node: exactly one \<^verbatim>\<open>retrying\<close> and exactly one
  \<^verbatim>\<open>error\<close> entry.
\<close>

definition logs_one_retry_one_error :: "execution_status list \<Rightarrow> bool" where
  "logs_one_retry_one_error sts =
     (count_status retrying sts = 1 \<and> count_status error sts = 1)"

text \<open>A connector that returns no rows when its input has no value to look for.\<close>

definition quiet_without_input ::
  "(TraversalNode \<Rightarrow> Policy \<Rightarrow> (string \<times> pyval) list \<Rightarrow> 'c \<Rightarrow>
      (py_error + (string \<times> pyval) list list) \<times> 'c) \<Rightarrow> bool"
where
  "quiet_without_input retrieve =
     (\<forall>node policy input_data c rows.
        no_usable_input node input_data \<longrightarrow>
        fst (retrieve node policy input_data c) = Inr rows \<longrightarrow> rows = [])"

text \<open>
  The sentence of the specification on downstream nodes, read for every node: whenever a
  node ended in \<^verbatim>\<open>error\<close>, every node with an incoming edge from it was given an input
  without a value and published no row.
\<close>

definition downstream_of_error_empty :: "TraversalNode list \<Rightarrow> 'c task_state \<Rightarrow> bool" where
  "downstream_of_error_empty order s =
     (\<forall>n \<in> set order. \<forall>m \<in> set order.
        error \<in> set (statuses_for (node_address n) (task_logs s)) \<longrightarrow>
        node_address n \<in> set (map source_address (incoming_edges m)) \<longrightarrow>
        (case map_of (task_inputs s) (node_address m) of
           None \<Rightarrow> False
         | Some input_data \<Rightarrow> no_usable_input m input_data)
        \<and> rows_of (published s) (node_address m) = [])"

section \<open>Traces of the task execution engine\<close>

text \<open>
  Predicates over the states of the engine above, in which its runs are described. A
  log entry of a node that does not carry the primary-key diagnostic; what the retry
  loop adds to a state (\<open>retry_trace\<close>: either \<open>f \<le> k\<close> failed calls, each followed by
  \<^verbatim>\<open>retrying\<close>, then a call that returns and \<^verbatim>\<open>complete\<close>, or \<open>k + 1\<close> failed calls,
  the first \<open>k\<close> followed by \<^verbatim>\<open>retrying\<close> and the last by \<^verbatim>\<open>error\<close>); what an access
  task adds (\<open>access_effect\<close>); and what a state holds for one collection address.
\<close>

definition node_log :: "TraversalNode \<Rightarrow> execution_log \<Rightarrow> bool" where
  "node_log node l = (dataset_name l = fst (node_address node)
      \<and> collection_name l = snd (node_address node)
      \<and> message l \<noteq> Some NO_PRIMARY_KEY_MESSAGE)"

definition retry_trace ::
  "TraversalNode \<Rightarrow> nat \<Rightarrow> 'c task_state \<Rightarrow> 'r option \<Rightarrow> 'c task_state \<Rightarrow>
   execution_log list \<Rightarrow> bool list \<Rightarrow> bool" where
  "retry_trace node k s r s' news atts =
     (task_logs s' = task_logs s @ news
      \<and> task_attempts s' = task_attempts s @ map (Pair (node_address node)) atts
      \<and> published s' = published s \<and> access_results s' = access_results s
      \<and> erasure_results s' = erasure_results s \<and> task_inputs s' = task_inputs s
      \<and> list_all (node_log node) news
      \<and> ((\<exists>f. r \<noteq> None \<and> f \<le> k \<and> atts = replicate f False @ [True]
               \<and> map status news = replicate f retrying @ [complete])
          \<or> (r = None \<and> atts = replicate (Suc k) False
               \<and> map status news = replicate k retrying @ [error])))"

definition access_effect ::
  "(TraversalNode \<Rightarrow> Policy \<Rightarrow> (string \<times> pyval) list \<Rightarrow> 'c \<Rightarrow>
      (py_error + (string \<times> pyval) list list) \<times> 'c) \<Rightarrow>
   Policy \<Rightarrow> TraversalNode \<Rightarrow> nat \<Rightarrow> 'c task_state \<Rightarrow> 'c task_state \<Rightarrow>
   execution_log list \<Rightarrow> bool list \<Rightarrow> (string \<times> pyval) list list \<Rightarrow> bool" where
  "access_effect retrieve policy node k s s' news atts rows =
     (task_logs s' = task_logs s @ news
      \<and> task_attempts s' = task_attempts s @ map (Pair (node_address node)) atts
      \<and> task_inputs s' = task_inputs s @ [(node_address node, build_input node (published s))]
      \<and> published s' = published s @ [(node_address node, rows)]
      \<and> erasure_results s' = erasure_results s
      \<and> list_all (node_log node) news
      \<and> ((\<exists>f. f \<le> k \<and> access_results s' = access_results s @ [(node_address node, rows)]
               \<and> map status news = in_processing # replicate f retrying @ [complete]
               \<and> atts = replicate f False @ [True]
               \<and> (\<exists>c. fst (retrieve node policy (build_input node (published s)) c) = Inr rows))
          \<or> (access_results s' = access_results s \<and> rows = []
               \<and> map status news = in_processing # replicate k retrying @ [error]
               \<and> atts = replicate (Suc k) False)))"

definition view ::
  "CollectionAddress \<Rightarrow> 'c task_state \<Rightarrow>
   execution_log list \<times> bool list \<times> (string \<times> pyval) list list option
     \<times> (string \<times> pyval) list list option \<times> (string \<times> pyval) list option" where
  "view b s =
     (logs_for b (task_logs s), attempts_for b (task_attempts s), map_of (published s) b,
      map_of (access_results s) b, map_of (task_inputs s) b)"

text \<open>
  What the final state of an access run holds for a node: it completed after \<open>f\<close> failed
  calls, or it gave up after \<open>k + 1\<close> failed calls and has no entry in the result map.
\<close>

definition node_completed ::
  "CollectionAddress \<Rightarrow> nat \<Rightarrow> 'c task_state \<Rightarrow> nat \<Rightarrow> (string \<times> pyval) list list \<Rightarrow> bool" where
  "node_completed a k s f rows =
     (f \<le> k
      \<and> statuses_for a (task_logs s) = in_processing # replicate f retrying @ [complete]
      \<and> attempts_for a (task_attempts s) = replicate f False @ [True]
      \<and> map_of (access_results s) a = Some rows)"

definition node_gave_up :: "CollectionAddress \<Rightarrow> nat \<Rightarrow> 'c task_state \<Rightarrow> bool" where
  "node_gave_up a k s =
     (statuses_for a (task_logs s) = in_processing # replicate k retrying @ [error]
      \<and> attempts_for a (task_attempts s) = replicate (Suc k) False
      \<and> map_of (access_results s) a = None)"

text \<open>
  A node has reached a terminal state when its last log entry is \<^verbatim>\<open>complete\<close> or
  \<^verbatim>\<open>error\<close> and it has published its rows. A node is fed only by errors when every one
  of its incoming edges comes from a node that ended in \<^verbatim>\<open>error\<close>.
\<close>

definition reached_terminal_state :: "CollectionAddress \<Rightarrow> 'c task_state \<Rightarrow> bool" where
  "reached_terminal_state a s =
     (statuses_for a (task_logs s) \<noteq> []
      \<and> (last (statuses_for a (task_logs s)) = complete
           \<or> last (statuses_for a (task_logs s)) = error)
      \<and> map_of (published s) a \<noteq> None)"

definition fed_only_by_errors :: "TraversalNode \<Rightarrow> 'c task_state \<Rightarrow> bool" where
  "fed_only_by_errors m s =
     list_all (\<lambda>e. error \<in> set (statuses_for (source_address e) (task_logs s)))
       (incoming_edges m)"

text \<open>
  The same for the erasure pass: the log entries of an address, what a state holds for
  it, and what an erasure task adds (with a primary key the trace of the retry loop,
  without one the two entries \<^verbatim>\<open>in_processing\<close> and \<^verbatim>\<open>complete\<close> and no call).
\<close>

definition own_log :: "CollectionAddress \<Rightarrow> execution_log \<Rightarrow> bool" where
  "own_log a l = (dataset_name l = fst a \<and> collection_name l = snd a)"

definition erasure_view ::
  "CollectionAddress \<Rightarrow> 'c task_state \<Rightarrow> execution_log list \<times> bool list \<times> int option" where
  "erasure_view b s =
     (logs_for b (task_logs s), attempts_for b (task_attempts s), map_of (erasure_results s) b)"

definition erasure_effect ::
  "(TraversalNode \<Rightarrow> Policy \<Rightarrow> PrivacyRequest \<Rightarrow> (string \<times> pyval) list list \<Rightarrow> 'c \<Rightarrow>
      (py_error + int) \<times> 'c) \<Rightarrow>
   Policy \<Rightarrow> PrivacyRequest \<Rightarrow> (CollectionAddress \<times> (string \<times> pyval) list list) list \<Rightarrow>
   TraversalNode \<Rightarrow> nat \<Rightarrow> 'c task_state \<Rightarrow> 'c task_state \<Rightarrow>
   execution_log list \<Rightarrow> bool list \<Rightarrow> int \<Rightarrow> bool" where
  "erasure_effect masker policy request access_request_data node k s s' news atts cnt =
     (task_logs s' = task_logs s @ news
      \<and> task_attempts s' = task_attempts s @ map (Pair (node_address node)) atts
      \<and> erasure_results s' = erasure_results s @ [(node_address node, cnt)]
      \<and> list_all (own_log (node_address node)) news
      \<and> list_all (\<lambda>l. action_type l = erasure) news
      \<and> (if list_ex primary_key (node_fields node) then
            (\<exists>f. f \<le> k
               \<and> map status news = in_processing # replicate f retrying @ [complete]
               \<and> atts = replicate f False @ [True]
               \<and> (\<exists>c. fst (masker node policy request
                              (rows_of access_request_data (node_address node)) c) = Inr cnt))
            \<or> (cnt = 0
               \<and> map status news = in_processing # replicate k retrying @ [error]
               \<and> atts = replicate (Suc k) False)
          else cnt = 0 \<and> atts = [] \<and> map status news = [in_processing, complete]))"

section \<open>Example rows and collections\<close>

text \<open>
  The address collection and row of \<^verbatim>\<open>test_filter_on_data_categories\<close>, a row with empty
  containers, and a customer with a list of nested addresses.
\<close>

definition example_address_fields :: "field list" where
  "example_address_fields =
    [Field ''city'' False [''user.provided.identifiable.contact.city''] None [],
     Field ''house'' False [''user.provided.identifiable.contact.street''] None [],
     Field ''id'' True [''system.operations''] None [],
     Field ''state'' False [''user.provided.identifiable.contact.state''] None [],
     Field ''street'' False [''user.provided.identifiable.contact.street''] None [],
     Field ''zip'' False [''user.provided.identifiable.contact.postal_code''] None []]"

definition example_address_row :: "(string \<times> pyval) list" where
  "example_address_row =
    [(''city'', PStr ''Exampletown''), (''house'', PInt 123), (''id'', PInt 1),
     (''state'', PStr ''NY''), (''street'', PStr ''Example Street''),
     (''zip'', PStr ''12345'')]"

definition example_nested_row :: pyval where
  "example_nested_row =
     PDict [(''a'', PList [PList [], PInt 1, PDict [(''x'', PDict [])]]),
            (''b'', PDict []),
            (''c'', PDict [(''d'', PStr ''s''), (''e'', PList [])])]"

definition example_customer_fields :: "field list" where
  "example_customer_fields =
    [Field ''name'' False [''user.provided.identifiable.name''] None [],
     Field ''addresses'' False [] None
       [Field ''street'' False [''user.provided.identifiable.contact.street''] None [],
        Field ''zip'' False [''user.provided.identifiable.contact.postal_code''] None []]]"

definition example_customer_row :: pyval where
  "example_customer_row =
     PDict [(''name'', PStr ''Jane''),
            (''addresses'',
               PList [PDict [(''street'', PStr ''Example Street''), (''zip'', PStr ''12345'')],
                      PDict [(''zip'', PStr ''12321'')]]),
            (''misc'', PDict [])]"

text \<open>
  The customer node of \<^verbatim>\<open>test_retrieving_data_no_input\<close>, seeded through its
  \<^verbatim>\<open>email\<close> field; an erasure policy that nulls names; a store that counts the
  statements it has executed and reports one affected row for each.
\<close>

definition example_customer_node :: TraversalNode where
  "example_customer_node =
     \<lparr>node_address = (''postgres_example_test_dataset'', ''customer''),
      node_fields =
        [Field ''id'' True [''user.derived.identifiable.unique_id''] None [],
         Field ''email'' False [''user.provided.identifiable.contact.email''] (Some ''email'') [],
         Field ''name'' False [''user.provided.identifiable.name''] None []],
      incoming_edges =
        [(FieldAddress ''fake_dataset'' ''fake_collection'' [''email''],
          FieldAddress ''postgres_example_test_dataset'' ''customer'' [''email''])]\<rparr>"

definition example_erasure_policy :: Policy where
  "example_erasure_policy =
     [\<lparr>action = erasure, masking_strategy = (\<lambda>v. PNone),
       targets = [''user.provided.identifiable.name'']\<rparr>]"

definition example_exec :: "statement \<Rightarrow> nat \<Rightarrow> (py_error + cursor_result) \<times> nat" where
  "example_exec stmt db = (Inr \<lparr>columns = [], tuples = [], rowcount = 1\<rparr>, Suc db)"

definition example_connector :: "(statement, nat) SQLConnector" where
  "example_connector = \<lparr>db_client = False, store = 0, calls = []\<rparr>"

definition example_customer_rows :: "(string \<times> pyval) list list" where
  "example_customer_rows =
     [[(''id'', PInt 1), (''name'', PStr ''John'')],
      [(''id'', PNone), (''name'', PStr ''Jane'')],
      [(''id'', PInt 3), (''email'', PStr ''c@example.com'')],
      [(''id'', PInt 4), (''name'', PStr ''Zed'')]]"

definition example_no_input :: "(string \<times> pyval) list" where
  "example_no_input =
     [(''email'', PList [PNone]), (''bad_key'', PList [PStr ''test'']), (''name'', PNone),
      (''id'', PList [])]"

definition example_request :: PrivacyRequest where
  "example_request = \<lparr>request_id = ''pri_1''\<rparr>"

definition example_masked_connector :: "(statement, nat) SQLConnector" where
  "example_masked_connector =
     \<lparr>db_client = True, store = 2,
      calls =
        [(Update (''postgres_example_test_dataset'', ''customer'')
            [(''name'', PNone)] [(''id'', PInt 1)],
          Inr \<lparr>columns = [], tuples = [], rowcount = 1\<rparr>),
         (Update (''postgres_example_test_dataset'', ''customer'')
            [(''name'', PNone)] [(''id'', PInt 4)],
          Inr \<lparr>columns = [], tuples = [], rowcount = 1\<rparr>)]\<rparr>"

text \<open>
  A collection whose field \<^verbatim>\<open>a\<close> is declared an object with a child \<^verbatim>\<open>b\<close>, and rows
  that hold a scalar where the object is declared.
\<close>

definition example_nested_fields :: "field list" where
  "example_nested_fields =
     [Field ''a'' False [] None
        [Field ''b'' False [''user.provided.identifiable.contact.street''] None []]]"

definition example_scalar_row :: "(string \<times> pyval) list" where
  "example_scalar_row = [(''a'', PInt 5)]"

definition example_mixed_row :: "(string \<times> pyval) list" where
  "example_mixed_row =
     [(''a'', PList [PStr ''secret'', PDict [(''b'', PStr ''street'')]])]"

text \<open>A row that holds an object with items where the field \<^verbatim>\<open>a.b\<close> is declared a scalar.\<close>

definition example_deep_row :: "(string \<times> pyval) list" where
  "example_deep_row = [(''a'', PDict [(''b'', PDict [(''c'', PInt 1)])])]"

text \<open>
  The settings of \<^verbatim>\<open>test_retry_access_request\<close> (one retry), a connector whose every
  call raises, and one whose first call raises.
\<close>

definition example_retry_settings :: ExecutionSettings where
  "example_retry_settings =
     \<lparr>TASK_RETRY_COUNT = 1, TASK_RETRY_DELAY = 0, TASK_RETRY_BACKOFF = 1\<rparr>"

definition example_failing_retrieve ::
  "TraversalNode \<Rightarrow> Policy \<Rightarrow> (string \<times> pyval) list \<Rightarrow> nat \<Rightarrow>
   (py_error + (string \<times> pyval) list list) \<times> nat" where
  "example_failing_retrieve node policy input_data c = (Inl OperationalError, Suc c)"

definition example_flaky_retrieve ::
  "TraversalNode \<Rightarrow> Policy \<Rightarrow> (string \<times> pyval) list \<Rightarrow> nat \<Rightarrow>
   (py_error + (string \<times> pyval) list list) \<times> nat" where
  "example_flaky_retrieve node policy input_data c =
     (if c = 0 then Inl OperationalError else Inr [[(''id'', PInt 1)]], Suc c)"

text \<open>
  A traversal of four collections: \<^verbatim>\<open>customer\<close> and \<^verbatim>\<open>employee\<close> are seeded with the
  email, \<^verbatim>\<open>address\<close> is reached from both through \<^verbatim>\<open>address_id\<close>, \<^verbatim>\<open>orders\<close> from
  \<^verbatim>\<open>customer\<close> only. The connector raises on \<^verbatim>\<open>customer\<close>, returns no row when its
  input has no value to look for, and one row otherwise.
\<close>

definition example_graph_customer :: TraversalNode where
  "example_graph_customer =
     \<lparr>node_address = (''postgres_example'', ''customer''),
      node_fields =
        [Field ''id'' True [] None [],
         Field ''email'' False [] (Some ''email'') [],
         Field ''address_id'' False [] None []],
      incoming_edges =
        [(FieldAddress ''__ROOT__'' ''__ROOT__'' [''email''],
          FieldAddress ''postgres_example'' ''customer'' [''email''])]\<rparr>"

definition example_graph_employee :: TraversalNode where
  "example_graph_employee =
     \<lparr>node_address = (''postgres_example'', ''employee''),
      node_fields =
        [Field ''id'' True [] None [],
         Field ''email'' False [] (Some ''email'') [],
         Field ''address_id'' False [] None []],
      incoming_edges =
        [(FieldAddress ''__ROOT__'' ''__ROOT__'' [''email''],
          FieldAddress ''postgres_example'' ''employee'' [''email''])]\<rparr>"

definition example_graph_address :: TraversalNode where
  "example_graph_address =
     \<lparr>node_address = (''postgres_example'', ''address''),
      node_fields =
        [Field ''id'' False [] None [],
         Field ''city'' False [''user.provided.identifiable.contact.city''] None []],
      incoming_edges =
        [(FieldAddress ''postgres_example'' ''customer'' [''address_id''],
          FieldAddress ''postgres_example'' ''address'' [''id'']),
         (FieldAddress ''postgres_example'' ''employee'' [''address_id''],
          FieldAddress ''postgres_example'' ''address'' [''id''])]\<rparr>"

definition example_graph_orders :: TraversalNode where
  "example_graph_orders =
     \<lparr>node_address = (''postgres_example'', ''orders''),
      node_fields =
        [Field ''id'' True [] None [],
         Field ''customer_id'' False [] None []],
      incoming_edges =
        [(FieldAddress ''postgres_example'' ''customer'' [''id''],
          FieldAddress ''postgres_example'' ''orders'' [''customer_id''])]\<rparr>"

definition example_order :: "TraversalNode list" where
  "example_order =
     [example_graph_customer, example_graph_employee, example_graph_address,
      example_graph_orders]"

definition example_seed :: "(string \<times> pyval) list" where
  "example_seed = [(''email'', PStr ''customer-5@example.com'')]"

definition example_partial_retrieve ::
  "TraversalNode \<Rightarrow> Policy \<Rightarrow> (string \<times> pyval) list \<Rightarrow> nat \<Rightarrow>
   (py_error + (string \<times> pyval) list list) \<times> nat" where
  "example_partial_retrieve node policy input_data c =
     (if snd (node_address node) = ''customer'' then Inl OperationalError
      else if no_usable_input node input_data then Inr []
      else Inr [[(''id'', PInt 7), (''address_id'', PInt 7)]],
      Suc c)"

text \<open>
  The erasure of \<^verbatim>\<open>test_sql_erasure_ignores_collections_without_pk\<close>: the address
  collection has no primary key, the policy targets the name of the customer and the
  city of the address, and the rows of both collections are at hand from the access
  pass. The masker is \<open>mask_data\<close> on the store that reports one affected row for each
  statement.
\<close>

definition example_erasure_address_node :: TraversalNode where
  "example_erasure_address_node =
     \<lparr>node_address = (''postgres_example_test_dataset'', ''address''),
      node_fields =
        [Field ''id'' False [''system.operations''] None [],
         Field ''city'' False [''user.provided.identifiable.contact.city''] None []],
      incoming_edges =
        [(FieldAddress ''postgres_example_test_dataset'' ''customer'' [''address_id''],
          FieldAddress ''postgres_example_test_dataset'' ''address'' [''id''])]\<rparr>"

definition example_erasure_policy_all :: Policy where
  "example_erasure_policy_all =
     [\<lparr>action = erasure, masking_strategy = (\<lambda>v. PNone),
       targets = [''user.provided.identifiable'']\<rparr>]"

definition example_access_data :: "(CollectionAddress \<times> (string \<times> pyval) list list) list" where
  "example_access_data =
     [((''postgres_example_test_dataset'', ''customer''),
       [[(''id'', PInt 1), (''name'', PStr ''John'')]]),
      ((''postgres_example_test_dataset'', ''address''),
       [[(''id'', PInt 7), (''city'', PStr ''Exampletown'')]])]"

definition example_sql_masker ::
  "TraversalNode \<Rightarrow> Policy \<Rightarrow> PrivacyRequest \<Rightarrow> (string \<times> pyval) list list \<Rightarrow>
   (statement, nat) SQLConnector \<Rightarrow> (py_error + int) \<times> (statement, nat) SQLConnector" where
  "example_sql_masker node policy request rows self =
     mask_data spec_query_config example_exec self node policy request rows"

text \<open>A masker whose every call raises, as in \<^verbatim>\<open>test_retry_erasure\<close>.\<close>

definition example_failing_masker ::
  "TraversalNode \<Rightarrow> Policy \<Rightarrow> PrivacyRequest \<Rightarrow> (string \<times> pyval) list list \<Rightarrow> nat \<Rightarrow>
   (py_error + int) \<times> nat" where
  "example_failing_masker node policy request rows c = (Inl OperationalError, Suc c)"

section \<open>Embedded execution logs: the loop keeps the first 51 rows of every dataset\<close>

lemma dd_get_upd: "dd_get (d(k \<mapsto> v)) k' = (if k' = k then v else dd_get d k')"
  by (simp add: dd_get_def)

lemma embed_logs_get:
  "dd_get (embed_logs logs d) name =
     dd_get d name @
     take (Suc EMBEDDED_EXECUTION_LOG_LIMIT - length (dd_get d name))
       (filter (\<lambda>l. dataset_name l = name) logs)"
proof (induction logs arbitrary: d)
  case Nil
  then show ?case by simp
next
  case (Cons log logs)
  show ?case
  proof (cases "dataset_name log = name")
    case False
    then show ?thesis
      by (simp add: Cons.IH Let_def dd_get_upd del: fun_upd_apply)
  next
    case True
    show ?thesis
    proof (cases "length (dd_get d name) > EMBEDDED_EXECUTION_LOG_LIMIT")
      case over: True
      then have "Suc EMBEDDED_EXECUTION_LOG_LIMIT - length (dd_get d name) = 0"
        by simp
      with True over show ?thesis
        by (simp add: Cons.IH Let_def dd_get_upd del: fun_upd_apply)
    next
      case under: False
      then have "Suc EMBEDDED_EXECUTION_LOG_LIMIT - length (dd_get d name)
          = Suc (Suc EMBEDDED_EXECUTION_LOG_LIMIT - Suc (length (dd_get d name)))"
        by simp
      with True under show ?thesis
        by (simp add: Cons.IH Let_def dd_get_upd del: fun_upd_apply)
    qed
  qed
qed

lemma embed_logs_dom:
  "dom (embed_logs logs d) = dom d \<union> dataset_name ` set logs"
  by (induction logs arbitrary: d) (auto simp: Let_def)

lemma sorted_order_key_group:
  assumes "sorted (map order_key logs)"
  shows "sorted (map updated_at (filter (\<lambda>l. dataset_name l = name) logs))"
  using assms
proof (induction logs)
  case Nil
  then show ?case by simp
next
  case (Cons l logs)
  then have rest: "sorted (map updated_at (filter (\<lambda>l. dataset_name l = name) logs))"
    by simp
  show ?case
  proof (cases "dataset_name l = name")
    case False
    with rest show ?thesis by simp
  next
    case True
    have "updated_at l \<le> updated_at l'"
      if "l' \<in> set logs" "dataset_name l' = name" for l'
    proof -
      from Cons.prems that(1) have "order_key l \<le> order_key l'"
        by auto
      with True that(2) show ?thesis
        by (simp add: order_key_def less_eq_prod_def)
    qed
    with True rest show ?thesis by auto
  qed
qed

lemma sorted_take: "sorted xs \<Longrightarrow> sorted (take n xs)"
  by (metis append_take_drop_id sorted_append)

text \<open>
  Claim C10. With \<^verbatim>\<open>verbose=True\<close> the list embedded for a dataset name is the
  first 51 rows of that dataset in the query's order: it is ordered by
  \<^verbatim>\<open>updated_at\<close> ascending and has at most
  \<^verbatim>\<open>EMBEDDED_EXECUTION_LOG_LIMIT + 1 = 51\<close> entries, because the guard skips a row
  only once the list is longer than 50. The keys are the dataset names of the
  request's rows.
\<close>

theorem embedded_logs_ordered_and_truncated:
  "dd_get (execution_logs_by_dataset_name table rid) name =
     take 51 (filter (\<lambda>l. dataset_name l = name) (query_logs table rid))
   \<and> sorted (map updated_at (dd_get (execution_logs_by_dataset_name table rid) name))
   \<and> length (dd_get (execution_logs_by_dataset_name table rid) name)
       \<le> EMBEDDED_EXECUTION_LOG_LIMIT + 1
   \<and> EMBEDDED_EXECUTION_LOG_LIMIT + 1 = 51
   \<and> dom (execution_logs_by_dataset_name table rid)
       = dataset_name ` set (query_logs table rid)"
proof -
  let ?q = "query_logs table rid"
  let ?g = "filter (\<lambda>l. dataset_name l = name) ?q"
  have eq: "dd_get (execution_logs_by_dataset_name table rid) name = take 51 ?g"
    by (simp add: execution_logs_by_dataset_name_def embed_logs_get
        EMBEDDED_EXECUTION_LOG_LIMIT_def) (simp add: dd_get_def)
  have "sorted (map order_key ?q)"
    by (simp add: query_logs_def)
  then have "sorted (map updated_at ?g)"
    by (rule sorted_order_key_group)
  then have "sorted (take 51 (map updated_at ?g))"
    by (rule sorted_take)
  then have srt: "sorted (map updated_at (take 51 ?g))"
    by (simp add: take_map)
  have dm: "dom (execution_logs_by_dataset_name table rid) = dataset_name ` set ?q"
    by (simp add: execution_logs_by_dataset_name_def embed_logs_dom)
  from eq srt dm show ?thesis
    by (simp add: EMBEDDED_EXECUTION_LOG_LIMIT_def)
qed

section \<open>The censored configuration shows the allowlist and nothing else\<close>

lemma censored_config_value:
  "get_censored_config c = Inr
    [(''database'',
        [(''SERVER'', CStr (SERVER (database c))),
         (''USER'', CStr (USER (database c))),
         (''PORT'', CStr (PORT (database c))),
         (''DB'', CStr (DB (database c))),
         (''TEST_DB'', CStr (TEST_DB (database c)))]),
     (''redis'',
        [(''HOST'', CStr (HOST (redis c))),
         (''PORT'', CInt (REDIS_PORT (redis c))),
         (''CHARSET'', CStr (CHARSET (redis c))),
         (''DECODE_RESPONSES'', CBool (DECODE_RESPONSES (redis c))),
         (''DEFAULT_TTL_SECONDS'', CInt (DEFAULT_TTL_SECONDS (redis c))),
         (''DB_INDEX'', CInt (DB_INDEX (redis c)))]),
     (''security'',
        [(''CORS_ORIGINS'', CStrList (CORS_ORIGINS (security c))),
         (''ENCODING'', CStr (ENCODING (security c))),
         (''OAUTH_ACCESS_TOKEN_EXPIRE_MINUTES'',
            CInt (OAUTH_ACCESS_TOKEN_EXPIRE_MINUTES (security c)))]),
     (''execution'',
        [(''TASK_RETRY_COUNT'', CInt (TASK_RETRY_COUNT (execution c))),
         (''TASK_RETRY_DELAY'', CInt (TASK_RETRY_DELAY (execution c))),
         (''TASK_RETRY_BACKOFF'', CInt (TASK_RETRY_BACKOFF (execution c)))])]"
  by (simp add: get_censored_config_def CONFIG_KEY_ALLOWLIST_def config_dict_def)

text \<open>
  Claim C9. For every configuration, \<^verbatim>\<open>get_censored_config\<close> returns (it raises no
  \<^verbatim>\<open>KeyError\<close>), the sections and keys of its result are exactly those of
  \<^verbatim>\<open>CONFIG_KEY_ALLOWLIST\<close>, in its order, and none of the secret fields (the
  database and Redis passwords, the connection strings, \<^verbatim>\<open>APP_ENCRYPTION_KEY\<close>, the
  OAuth root client's id, secret and secret hash) is a key of the result.
\<close>

theorem censored_config_is_allowlist:
  "\<exists>out. get_censored_config c = Inr out
      \<and> shown_keys out = CONFIG_KEY_ALLOWLIST
      \<and> filter (shows_field out) secret_fields = []"
  by (simp add: censored_config_value shown_keys_def CONFIG_KEY_ALLOWLIST_def
      secret_fields_def shows_field_def)

section \<open>The result filter: what the two functions compute\<close>

subsection \<open>\<^verbatim>\<open>remove_empty_containers\<close> prunes\<close>

lemma rec_scalar: "\<not> is_container v \<Longrightarrow> remove_empty_containers v = v"
  by (cases v) auto

lemma rec_if: "(if is_container v then remove_empty_containers v else v) = remove_empty_containers v"
  by (simp add: rec_scalar)

lemma prune_list_loop_eq:
  assumes "\<forall>x \<in> set pre. remove_empty_containers x = prune x"
  shows "prune_list_loop (rev (enumerate 0 pre)) (pre @ sfx)
       = filter (\<lambda>x. \<not> is_empty_container x) (map prune pre) @ sfx"
  using assms
proof (induction pre arbitrary: sfx rule: rev_induct)
  case Nil
  then show ?case by simp
next
  case (snoc y ys)
  have en: "rev (enumerate 0 (ys @ [y])) = (length ys, y) # rev (enumerate 0 ys)"
    by (simp add: enumerate_append_eq)
  have y: "(if is_container y then remove_empty_containers y else y) = prune y"
    using snoc.prems by (simp add: rec_if)
  have ih: "prune_list_loop (rev (enumerate 0 ys)) (ys @ s)
       = filter (\<lambda>x. \<not> is_empty_container x) (map prune ys) @ s" for s
    using snoc.IH snoc.prems by simp
  have upd: "((ys @ [y]) @ sfx)[length ys := prune y] = ys @ prune y # sfx"
    by (simp add: list_update_append)
  show ?case
  proof (cases "is_empty_container (prune y)")
    case True
    then show ?thesis
      using ih [of sfx] by (simp only: en prune_list_loop.simps y Let_def upd) simp
  next
    case False
    then show ?thesis
      using ih [of "prune y # sfx"] by (simp only: en prune_list_loop.simps y Let_def upd) simp
  qed
qed

lemma update_append_notin:
  "k \<notin> fst ` set xs \<Longrightarrow> AList.update k v (xs @ ys) = xs @ AList.update k v ys"
  by (induction xs) auto

lemma delete_append: "AList.delete k (xs @ ys) = AList.delete k xs @ AList.delete k ys"
  by (induction xs) auto

lemma delete_notin: "k \<notin> fst ` set xs \<Longrightarrow> AList.delete k xs = xs"
  by (induction xs) auto

lemma prune_dict_loop_eq:
  assumes "\<forall>v \<in> snd ` set items. remove_empty_containers v = prune v"
    and "distinct (map fst (done @ items))"
  shows "prune_dict_loop items (done @ items)
       = done @ filter (\<lambda>kv. \<not> is_empty_container (snd kv))
                  (map (\<lambda>kv. (fst kv, prune (snd kv))) items)"
  using assms
proof (induction items arbitrary: "done")
  case Nil
  then show ?case by simp
next
  case (Cons kv rest)
  obtain k v where kv: "kv = (k, v)" by (cases kv)
  have v: "(if is_container v then remove_empty_containers v else v) = prune v"
    using Cons.prems(1) kv by (simp add: rec_if)
  have kd: "k \<notin> fst ` set done" and kr: "k \<notin> fst ` set rest"
    using Cons.prems(2) kv by auto
  have upd: "AList.update k (prune v) (done @ (k, v) # rest) = done @ (k, prune v) # rest"
    using kd by (simp add: update_append_notin)
  have del: "AList.delete k (done @ (k, prune v) # rest) = done @ rest"
    using kd kr by (simp add: delete_append delete_notin)
  have rest: "\<forall>v \<in> snd ` set rest. remove_empty_containers v = prune v"
    using Cons.prems(1) by simp
  show ?case
  proof (cases "is_empty_container (prune v)")
    case True
    have "distinct (map fst (done @ rest))" using Cons.prems(2) by simp
    from Cons.IH [OF rest this] True show ?thesis
      by (simp only: kv prune_dict_loop.simps v Let_def upd del) simp
  next
    case False
    have "distinct (map fst ((done @ [(k, prune v)]) @ rest))" using Cons.prems(2) kv by simp
    from Cons.IH [OF rest this] False show ?thesis
      by (simp only: kv prune_dict_loop.simps v Let_def upd) simp
  qed
qed

lemma remove_empty_containers_prune:
  "wf v \<Longrightarrow> remove_empty_containers v = prune v"
proof (induction v)
  case (PList xs)
  then have "\<forall>x \<in> set xs. remove_empty_containers x = prune x" by simp
  from prune_list_loop_eq [OF this, of "[]"] show ?case by simp
next
  case (PDict kvs)
  then have a: "\<forall>v \<in> snd ` set kvs. remove_empty_containers v = prune v"
    by fastforce
  have "distinct (map fst ([] @ kvs))" using PDict.prems by simp
  from prune_dict_loop_eq [OF a this] show ?case by simp
qed simp_all

subsection \<open>Touched keys and sub-paths\<close>

lemma first_occurrences_snoc:
  "first_occurrences (xs @ [x]) =
     (if x \<in> set xs then first_occurrences xs else first_occurrences xs @ [x])"
  by (simp add: first_occurrences_def)

lemma set_first_occurrences [simp]: "set (first_occurrences xs) = set xs"
  by (simp add: first_occurrences_def)

lemma distinct_first_occurrences [simp]: "distinct (first_occurrences xs)"
  by (simp add: first_occurrences_def)

lemma first_occurrences_Nil [simp]: "first_occurrences [] = []"
  by (simp add: first_occurrences_def)

lemma touched_Nil [simp]: "touched [] kvs = []" "touched ps [] = []"
  by (simp_all add: touched_def)

lemma sub_paths_Nil [simp]: "sub_paths k [] = []"
  by (simp add: sub_paths_def)

lemma sub_paths_snoc:
  "sub_paths k (ps @ [p]) =
     (if p \<noteq> [] \<and> hd p = k then sub_paths k ps @ [tl p] else sub_paths k ps)"
  by (simp add: sub_paths_def)

lemma in_touched_iff:
  "k \<in> set (touched ps kvs) \<longleftrightarrow> k \<in> fst ` set kvs \<and> sub_paths k ps \<noteq> []"
  by (auto simp: touched_def sub_paths_def filter_empty_conv)

lemma distinct_touched [simp]: "distinct (touched ps kvs)"
  by (simp add: touched_def)

lemma touched_snoc:
  "touched (ps @ [p]) kvs =
     (if p \<noteq> [] \<and> hd p \<in> fst ` set kvs \<and> hd p \<notin> set (touched ps kvs)
      then touched ps kvs @ [hd p] else touched ps kvs)"
  by (auto simp: touched_def first_occurrences_snoc)

lemma proj_Nil: "proj [] v = defaultdict_or_array v"
  by (cases v) simp_all

lemma save_list_step_fresh:
  "save_list (PList acc) (length acc) (x # xs) p =
     (case select_and_save_field (defaultdict_or_array x) x p of
        (v, None) \<Rightarrow> save_list (PList (acc @ [v])) (Suc (length acc)) xs p
      | (v, Some e) \<Rightarrow> (PList acc, Some e))"
  by simp

lemma save_list_step_again:
  "i < length ys \<Longrightarrow>
   save_list (PList ys) i (x # xs) p =
     (case select_and_save_field (ys ! i) x p of
        (v, None) \<Rightarrow> save_list (PList (ys[i := v])) (Suc i) xs p
      | (v, Some IndexError) \<Rightarrow>
          (case select_and_save_field (defaultdict_or_array x) x p of
             (w, None) \<Rightarrow> save_list (PList (ys[i := v] @ [w])) (Suc i) xs p
           | (w, Some e) \<Rightarrow> (PList (ys[i := v]), Some e))
      | (v, Some e) \<Rightarrow> (PList (ys[i := v]), Some e))"
  by (simp split: prod.splits option.splits py_error.splits)

lemma save_list_fresh:
  assumes "\<forall>x \<in> set xs. saves (select_and_save_field (defaultdict_or_array x) x p) [] p x"
  shows "((\<forall>x \<in> set xs. path_ok p x) \<longrightarrow>
            save_list (PList acc) (length acc) xs p = (PList (acc @ map (proj [p]) xs), None))
       \<and> (\<not> (\<forall>x \<in> set xs. path_ok p x) \<longrightarrow>
            snd (save_list (PList acc) (length acc) xs p) = Some IndexError)"
  using assms
proof (induction xs arbitrary: acc)
  case Nil
  then show ?case by simp
next
  case (Cons x xs)
  have x: "saves (select_and_save_field (defaultdict_or_array x) x p) [] p x"
    using Cons.prems by simp
  have ih: "((\<forall>x \<in> set xs. path_ok p x) \<longrightarrow>
           save_list (PList (acc @ [w])) (Suc (length acc)) xs p
              = (PList ((acc @ [w]) @ map (proj [p]) xs), None))
       \<and> (\<not> (\<forall>x \<in> set xs. path_ok p x) \<longrightarrow>
           snd (save_list (PList (acc @ [w])) (Suc (length acc)) xs p) = Some IndexError)" for w
    using Cons.IH [of "acc @ [w]"] Cons.prems by simp
  show ?case
  proof (cases "path_ok p x")
    case True
    with x have "select_and_save_field (defaultdict_or_array x) x p = (proj [p] x, None)"
      by (simp add: saves_def)
    with True ih [of "proj [p] x"] show ?thesis
      by (simp only: save_list_step_fresh) simp
  next
    case False
    with x obtain w where "select_and_save_field (defaultdict_or_array x) x p = (w, Some IndexError)"
      by (cases "select_and_save_field (defaultdict_or_array x) x p") (auto simp: saves_def)
    with False show ?thesis
      by (simp only: save_list_step_fresh) simp
  qed
qed

lemma save_list_again:
  assumes "\<forall>x \<in> set xs. saves (select_and_save_field (proj ps x) x p) ps p x"
    and "\<forall>x \<in> set xs. saves (select_and_save_field (defaultdict_or_array x) x p) [] p x"
  shows "((\<forall>x \<in> set xs. path_ok p x) \<longrightarrow>
            save_list (PList (dn @ map (proj ps) xs)) (length dn) xs p
              = (PList (dn @ map (proj (ps @ [p])) xs), None))
       \<and> (\<not> (\<forall>x \<in> set xs. path_ok p x) \<longrightarrow>
            snd (save_list (PList (dn @ map (proj ps) xs)) (length dn) xs p) = Some IndexError)"
  using assms
proof (induction xs arbitrary: dn)
  case Nil
  then show ?case by simp
next
  case (Cons x xs)
  let ?ys = "dn @ map (proj ps) (x # xs)"
  have len: "length dn < length ?ys" by simp
  have nth: "?ys ! length dn = proj ps x" by (simp add: nth_append)
  have upd: "?ys[length dn := w] = (dn @ [w]) @ map (proj ps) xs" for w
    by (simp add: list_update_append)
  have x: "saves (select_and_save_field (proj ps x) x p) ps p x"
    and x0: "saves (select_and_save_field (defaultdict_or_array x) x p) [] p x"
    using Cons.prems by simp_all
  have ih: "((\<forall>x \<in> set xs. path_ok p x) \<longrightarrow>
           save_list (PList ((dn @ [w]) @ map (proj ps) xs)) (Suc (length dn)) xs p
              = (PList ((dn @ [w]) @ map (proj (ps @ [p])) xs), None))
       \<and> (\<not> (\<forall>x \<in> set xs. path_ok p x) \<longrightarrow>
           snd (save_list (PList ((dn @ [w]) @ map (proj ps) xs)) (Suc (length dn)) xs p) = Some IndexError)" for w
    using Cons.IH [of "dn @ [w]"] Cons.prems by simp
  show ?case
  proof (cases "path_ok p x")
    case True
    with x have "select_and_save_field (proj ps x) x p = (proj (ps @ [p]) x, None)"
      by (simp add: saves_def)
    with True ih [of "proj (ps @ [p]) x"] show ?thesis
      by (simp only: save_list_step_again [OF len] nth upd) simp
  next
    case False
    with x obtain w where r: "select_and_save_field (proj ps x) x p = (w, Some IndexError)"
      by (cases "select_and_save_field (proj ps x) x p") (auto simp: saves_def)
    from False x0 obtain w0 where
      r0: "select_and_save_field (defaultdict_or_array x) x p = (w0, Some IndexError)"
      by (cases "select_and_save_field (defaultdict_or_array x) x p") (auto simp: saves_def)
    from False r r0 show ?thesis
      by (simp only: save_list_step_again [OF len] nth upd) (simp split: py_error.splits)
  qed
qed

lemma save_dict_skip:
  "l \<notin> fst ` set items \<Longrightarrow> save_dict saved items (l # ls) = (saved, None)"
  by (induction items) auto

lemma save_dict_seek:
  "l \<notin> fst ` set a \<Longrightarrow>
     save_dict saved (a @ (l, v) # b) (l # ls) = save_dict saved ((l, v) # b) (l # ls)"
  by (induction a) auto

lemma save_dict_Nil_path:
  "save_dict saved items [] = (if items = [] then (saved, None) else (saved, Some IndexError))"
  by (cases items) auto

lemma save_dict_step:
  "save_dict (PDict S) ((l, v) # b) (l # ls) =
     (let kvs1 = (if l \<in> set (map fst S) then S
                  else AList.update l (defaultdict_or_array v) S)
      in case map_of kvs1 l of
           None \<Rightarrow> (PDict kvs1, Some KeyError)
         | Some cur \<Rightarrow>
             (case select_and_save_field cur v ls of
                (w, None) \<Rightarrow> save_dict (PDict (AList.update l w kvs1)) b (l # ls)
              | (w, Some e) \<Rightarrow> (PDict (AList.update l w kvs1), Some e)))"
  by simp

lemma path_ok_items_iff:
  "path_ok_items p kvs \<longleftrightarrow>
     kvs = [] \<or> (p \<noteq> [] \<and> (\<forall>kv \<in> set kvs. fst kv = hd p \<longrightarrow> path_ok (tl p) (snd kv)))"
  by (induction kvs) (auto split: list.splits)

lemma update_notin_snoc:
  "k \<notin> fst ` set xs \<Longrightarrow> AList.update k v xs = xs @ [(k, v)]"
  by (induction xs) auto

lemma update_map_keys:
  "distinct ks \<Longrightarrow>
     AList.update k x (map (\<lambda>j. (j, f j)) ks) =
       (if k \<in> set ks then map (\<lambda>j. (j, (f(k := x)) j)) ks
        else map (\<lambda>j. (j, f j)) ks @ [(k, x)])"
  by (induction ks) auto

lemma map_of_map_keys:
  "map_of (map (\<lambda>j. (j, f j)) ks) k = (if k \<in> set ks then Some (f k) else None)"
  by (induction ks) auto

lemma map_of_distinct_item:
  "distinct (map fst kvs) \<Longrightarrow> (k, v) \<in> set kvs \<Longrightarrow> map_of kvs k = Some v"
  by simp

text \<open>The dictionary case of the walk.\<close>

lemma save_dict_proj:
  assumes dist: "distinct (map fst kvs)"
    and ih: "\<forall>v \<in> snd ` set kvs. \<forall>qs q. saves (select_and_save_field (proj qs v) v q) qs q v"
  shows "saves (save_dict (proj ps (PDict kvs)) kvs p) ps p (PDict kvs)"
proof (cases p)
  case Nil
  then show ?thesis
    by (cases kvs) (auto simp: saves_def save_dict_Nil_path touched_snoc)
next
  case (Cons l ls)
  let ?T = "touched ps kvs"
  let ?g = "\<lambda>k. proj (sub_paths k ps) (the (map_of kvs k))"
  let ?g' = "\<lambda>k. proj (sub_paths k (ps @ [p])) (the (map_of kvs k))"
  let ?S = "map (\<lambda>k. (k, ?g k)) ?T"
  have other: "?g' k = ?g k" if "k \<noteq> l" for k
    using that Cons by (simp add: sub_paths_snoc)
  show ?thesis
  proof (cases "l \<in> fst ` set kvs")
    case False
    then have "save_dict (proj ps (PDict kvs)) kvs p = (proj ps (PDict kvs), None)"
      using Cons by (simp add: save_dict_skip)
    moreover have "path_ok p (PDict kvs)"
      using False Cons by (auto simp: path_ok_items_iff)
    moreover have "touched (ps @ [p]) kvs = ?T"
      using False Cons by (simp add: touched_snoc)
    moreover have "?g' k = ?g k" if "k \<in> set ?T" for k
    proof -
      from that have "k \<in> fst ` set kvs" by (simp add: in_touched_iff)
      with False have "k \<noteq> l" by auto
      then show ?thesis by (rule other)
    qed
    then have "map (\<lambda>k. (k, ?g' k)) ?T = ?S"
      by simp
    ultimately show ?thesis
      by (simp add: saves_def)
  next
    case True
    then obtain v where lv: "(l, v) \<in> set kvs" by auto
    then obtain a b where split: "kvs = a @ (l, v) # b"
      by (auto simp: in_set_conv_decomp)
    with dist have la: "l \<notin> fst ` set a" and lb: "l \<notin> fst ` set b" by auto
    have val: "the (map_of kvs l) = v"
      using dist lv by simp
    have ok_iff: "path_ok p (PDict kvs) \<longleftrightarrow> path_ok ls v"
      using dist lv Cons by (auto simp: path_ok_items_iff dest: eq_key_imp_eq_value)
    let ?kvs1 = "if l \<in> set (map fst ?S) then ?S else AList.update l (defaultdict_or_array v) ?S"
    have keysS: "set (map fst ?S) = set ?T" by (simp add: comp_def)
    have cur: "map_of ?kvs1 l = Some (proj (sub_paths l ps) v)"
    proof (cases "l \<in> set ?T")
      case True
      then show ?thesis using keysS val by (simp add: map_of_map_keys)
    next
      case False
      then have "sub_paths l ps = []" using \<open>l \<in> fst ` set kvs\<close>
        by (simp add: in_touched_iff)
      with False keysS show ?thesis
        by (simp add: update_conv' proj_Nil)
    qed
    have step: "save_dict (proj ps (PDict kvs)) kvs p =
        (case select_and_save_field (proj (sub_paths l ps) v) v ls of
           (w, None) \<Rightarrow> (PDict (AList.update l w ?kvs1), None)
         | (w, Some e) \<Rightarrow> (PDict (AList.update l w ?kvs1), Some e))"
      using la lb cur
      by (simp only: proj.simps split Cons save_dict_seek [OF la] save_dict_step Let_def)
         (simp add: save_dict_skip split: prod.splits option.splits)
    have sv: "saves (select_and_save_field (proj (sub_paths l ps) v) v ls) (sub_paths l ps) ls v"
      using ih lv by force
    show ?thesis
    proof (cases "path_ok ls v")
      case False
      with sv obtain w where "select_and_save_field (proj (sub_paths l ps) v) v ls = (w, Some IndexError)"
        by (cases "select_and_save_field (proj (sub_paths l ps) v) v ls") (auto simp: saves_def)
      with False ok_iff step show ?thesis
        by (simp add: saves_def)
    next
      case ok: True
      let ?X = "proj (sub_paths l ps @ [ls]) v"
      from ok sv have r: "select_and_save_field (proj (sub_paths l ps) v) v ls = (?X, None)"
        by (simp add: saves_def)
      have X: "?X = ?g' l"
        using Cons val by (simp add: sub_paths_snoc)
      have fin: "AList.update l ?X ?kvs1 = map (\<lambda>k. (k, ?g' k)) (touched (ps @ [p]) kvs)"
      proof (cases "l \<in> set ?T")
        case True
        then have "touched (ps @ [p]) kvs = ?T"
          using Cons by (simp add: touched_snoc)
        moreover have "map (\<lambda>j. (j, (?g(l := ?X)) j)) ?T = map (\<lambda>k. (k, ?g' k)) ?T"
          using other X by auto
        ultimately show ?thesis
          using True keysS by (simp add: update_map_keys)
      next
        case False
        then have t: "touched (ps @ [p]) kvs = ?T @ [l]"
          using Cons \<open>l \<in> fst ` set kvs\<close> by (simp add: touched_snoc)
        have "?g' k = ?g k" if "k \<in> set ?T" for k
        proof -
          from that False have "k \<noteq> l" by auto
          then show ?thesis by (rule other)
        qed
        then have same: "map (\<lambda>k. (k, ?g' k)) ?T = ?S"
          by simp
        have "l \<notin> fst ` set ?S" using False by (auto simp: image_iff)
        then have "AList.update l ?X (AList.update l (defaultdict_or_array v) ?S) = ?S @ [(l, ?X)]"
          by (simp add: update_notin_snoc update_append_notin del: map_map)
        with False keysS t same X show ?thesis
          by simp
      qed
      from ok ok_iff step r fin show ?thesis
        by (simp add: saves_def)
    qed
  qed
qed

lemma pyval_induct [case_names PNone PBool PInt PStr PList PDict]:
  assumes "P PNone" "\<And>b. P (PBool b)" "\<And>n. P (PInt n)" "\<And>s. P (PStr s)"
    and "\<And>xs. (\<And>x. x \<in> set xs \<Longrightarrow> P x) \<Longrightarrow> P (PList xs)"
    and "\<And>kvs. (\<And>k v. (k, v) \<in> set kvs \<Longrightarrow> P v) \<Longrightarrow> P (PDict kvs)"
  shows "P v"
proof (induction v)
  case (PDict kvs)
  show ?case
  proof (rule assms(6))
    fix k v
    assume "(k, v) \<in> set kvs"
    moreover have "v \<in> Basic_BNFs.snds (k, v)" by (simp add: snds.simps)
    ultimately show "P v" by (rule PDict)
  qed
qed (auto intro: assms)

lemma select_and_save_field_proj:
  "wf v \<Longrightarrow> saves (select_and_save_field (proj ps v) v p) ps p v"
proof (induction v arbitrary: ps p rule: pyval_induct)
  case (PList xs)
  have ih: "\<forall>x \<in> set xs. saves (select_and_save_field (proj qs x) x p) qs p x" for qs
    using PList by simp
  have ih0: "\<forall>x \<in> set xs. saves (select_and_save_field (defaultdict_or_array x) x p) [] p x"
    using ih [of "[]"] by (simp add: proj_Nil)
  show ?case
  proof (cases "ps = []")
    case True
    with save_list_fresh [OF ih0, of "[]"] show ?thesis
      by (simp add: saves_def)
  next
    case False
    with save_list_again [OF ih [of ps] ih0, of "[]"] show ?thesis
      by (simp add: saves_def)
  qed
next
  case (PDict kvs)
  have "\<forall>v \<in> snd ` set kvs. \<forall>qs q. saves (select_and_save_field (proj qs v) v q) qs q v"
  proof (intro ballI allI)
    fix v qs q
    assume "v \<in> snd ` set kvs"
    then obtain k where kv: "(k, v) \<in> set kvs" by auto
    with PDict.prems have "wf v" by auto
    with kv show "saves (select_and_save_field (proj qs v) v q) qs q v"
      by (rule PDict.IH)
  qed
  moreover have "distinct (map fst kvs)" using PDict.prems by simp
  ultimately have "saves (save_dict (proj ps (PDict kvs)) kvs p) ps p (PDict kvs)"
    by (rule save_dict_proj [rotated])
  then show ?case by simp
qed (simp_all add: saves_def)

lemma save_paths_proj:
  "wf v \<Longrightarrow>
     ((\<forall>p \<in> set ps. path_ok p v) \<longrightarrow> save_paths (proj qs v) v ps = (proj (qs @ ps) v, None))
   \<and> (\<not> (\<forall>p \<in> set ps. path_ok p v) \<longrightarrow> snd (save_paths (proj qs v) v ps) = Some IndexError)"
proof (induction ps arbitrary: qs)
  case Nil
  then show ?case by simp
next
  case (Cons p ps)
  from Cons.prems have s: "saves (select_and_save_field (proj qs v) v p) qs p v"
    by (rule select_and_save_field_proj)
  show ?case
  proof (cases "path_ok p v")
    case True
    with s have "select_and_save_field (proj qs v) v p = (proj (qs @ [p]) v, None)"
      by (simp add: saves_def)
    with True Cons.IH [OF Cons.prems, of "qs @ [p]"] show ?thesis
      by simp
  next
    case False
    with s obtain w where "select_and_save_field (proj qs v) v p = (w, Some IndexError)"
      by (cases "select_and_save_field (proj qs v) v p") (auto simp: saves_def)
    with False show ?thesis by simp
  qed
qed

lemma wf_proj: "wf v \<Longrightarrow> wf (proj ps v)"
proof (induction v arbitrary: ps rule: pyval_induct)
  case (PDict kvs)
  have "wf (proj (sub_paths k ps) (the (map_of kvs k)))" if "k \<in> set (touched ps kvs)" for k
  proof -
    from that have "k \<in> fst ` set kvs" by (simp add: in_touched_iff)
    then obtain v where kv: "(k, v) \<in> set kvs" by auto
    with PDict.prems have "the (map_of kvs k) = v" "wf v" by auto
    with kv PDict.IH show ?thesis by simp
  qed
  then show ?case by (auto simp: comp_def)
qed auto

lemma wf_prune: "wf v \<Longrightarrow> wf (prune v)"
proof (induction v rule: pyval_induct)
  case (PDict kvs)
  have "distinct (map fst (filter (\<lambda>kv. \<not> is_empty_container (snd kv))
          (map (\<lambda>kv. (fst kv, prune (snd kv))) kvs)))"
    using PDict.prems by (simp add: distinct_map_filter comp_def)
  moreover have "wf (prune v)" if "(k, v) \<in> set kvs" for k v
  proof -
    from that PDict.prems have "wf v" by auto
    with that show ?thesis by (rule PDict.IH)
  qed
  ultimately show ?case by auto
qed auto

lemma filter_row_eq:
  assumes "wf (PDict kvs)"
  shows "(all_ok ps (PDict kvs) \<longrightarrow>
            filter_row ps (PDict kvs) = Inr (prune (proj ps (PDict kvs))))
       \<and> (\<not> all_ok ps (PDict kvs) \<longrightarrow> filter_row ps (PDict kvs) = Inl IndexError)"
proof -
  have p0: "proj [] (PDict kvs) = PDict []" by simp
  from save_paths_proj [OF assms, of ps "[]"] show ?thesis
    unfolding p0 all_ok_def filter_row_def
    using remove_empty_containers_prune [OF wf_proj [OF assms], of ps]
    by (auto split: prod.splits option.splits)
qed

lemma first_occurrences_filter:
  "first_occurrences (filter P xs) = filter P (first_occurrences xs)"
  by (simp add: first_occurrences_def rev_filter remdups_filter)

lemma all_ok_PList: "all_ok ps (PList xs) \<longleftrightarrow> (\<forall>x \<in> set xs. all_ok ps x)"
  by (auto simp: all_ok_def)

lemma all_ok_sub_paths:
  assumes "all_ok ps (PDict kvs)" "(k, v) \<in> set kvs"
  shows "all_ok (sub_paths k ps) v"
  unfolding all_ok_def
proof
  fix q assume "q \<in> set (sub_paths k ps)"
  then obtain p where p: "p \<in> set ps" "p \<noteq> []" "hd p = k" "q = tl p"
    by (auto simp: sub_paths_def)
  with assms(1) have "path_ok_items p kvs" by (simp add: all_ok_def)
  with assms(2) p show "path_ok q v"
    by (auto simp: path_ok_items_iff)
qed

lemma prune_proj_PDict:
  "prune (proj ps (PDict kvs)) =
     PDict (map (\<lambda>k. (k, prune (proj (sub_paths k ps) (the (map_of kvs k)))))
              (filter (\<lambda>k. \<not> is_empty_container (prune (proj (sub_paths k ps) (the (map_of kvs k)))))
                 (touched ps kvs)))"
  by (simp add: filter_map comp_def)

lemma touched_map_keys:
  assumes "set ks \<subseteq> set (touched ps kvs)" "ks = filter P (touched ps kvs)"
  shows "touched ps (map (\<lambda>k. (k, f k)) ks) = ks"
proof -
  let ?heads = "map hd (filter (\<lambda>p. p \<noteq> []) ps)"
  let ?D = "first_occurrences ?heads"
  have T: "touched ps kvs = filter (\<lambda>k. k \<in> set (map fst kvs)) ?D"
    by (simp add: touched_def first_occurrences_filter)
  have "touched ps (map (\<lambda>k. (k, f k)) ks) = filter (\<lambda>k. k \<in> set ks) ?D"
    by (simp add: touched_def first_occurrences_filter comp_def)
  also have "\<dots> = filter P (filter (\<lambda>k. k \<in> set (map fst kvs)) ?D)"
    unfolding filter_filter
  proof (rule filter_cong [OF refl])
    fix k assume "k \<in> set ?D"
    then show "(k \<in> set ks) = (k \<in> set (map fst kvs) \<and> P k)"
      unfolding assms(2) T by auto
  qed
  also have "\<dots> = ks" using assms(2) T by simp
  finally show ?thesis .
qed

lemma filter_idem_on:
  "(\<And>x. x \<in> set xs \<Longrightarrow> P (f x)) \<Longrightarrow> (\<And>x. x \<in> set xs \<Longrightarrow> f x = g x)
     \<Longrightarrow> filter (\<lambda>x. P (f x)) xs = xs"
  by (induction xs) auto

lemma prune_proj_PList:
  "ps \<noteq> [] \<Longrightarrow> prune (proj ps (PList xs)) =
     PList (filter (\<lambda>x. \<not> is_empty_container x) (map (\<lambda>x. prune (proj ps x)) xs))"
  by (simp add: comp_def)

text \<open>Projecting and pruning a second time changes nothing.\<close>

lemma prune_proj_idem:
  "wf v \<Longrightarrow> all_ok ps v \<Longrightarrow>
     prune (proj ps (prune (proj ps v))) = prune (proj ps v)
     \<and> all_ok ps (prune (proj ps v))"
proof (induction v arbitrary: ps rule: pyval_induct)
  case (PList xs)
  show ?case
  proof (cases "ps = []")
    case True
    then show ?thesis by (simp add: all_ok_def)
  next
    case False
    let ?F = "\<lambda>x. prune (proj ps x)"
    let ?ys = "filter (\<lambda>x. \<not> is_empty_container x) (map ?F xs)"
    have F: "prune (proj ps (PList xs)) = PList ?ys"
      using False by (rule prune_proj_PList)
    have y: "?F y = y \<and> all_ok ps y" if "y \<in> set ?ys" for y
    proof -
      from that obtain x where "x \<in> set xs" "y = ?F x" by auto
      moreover from this PList.prems have "wf x" "all_ok ps x"
        by (auto simp: all_ok_PList)
      ultimately show ?thesis using PList.IH by simp
    qed
    have m: "map ?F ?ys = ?ys"
      by (rule map_idI) (use y in blast)
    have "prune (proj ps (PList ?ys)) = PList (filter (\<lambda>x. \<not> is_empty_container x) (map ?F ?ys))"
      using False by (rule prune_proj_PList)
    also have "\<dots> = PList ?ys"
      unfolding m by simp
    finally have idem: "prune (proj ps (PList ?ys)) = PList ?ys" .
    have "all_ok ps (PList ?ys)"
      unfolding all_ok_PList using y by blast
    with idem show ?thesis
      unfolding F by blast
  qed
next
  case (PDict kvs)
  let ?val = "\<lambda>k. the (map_of kvs k)"
  let ?h = "\<lambda>k. prune (proj (sub_paths k ps) (?val k))"
  let ?T = "touched ps kvs"
  let ?T' = "filter (\<lambda>k. \<not> is_empty_container (?h k)) ?T"
  let ?kvs' = "map (\<lambda>k. (k, ?h k)) ?T'"
  have F: "prune (proj ps (PDict kvs)) = PDict ?kvs'"
    by (rule prune_proj_PDict)
  have ih: "prune (proj (sub_paths k ps) (?h k)) = ?h k \<and> all_ok (sub_paths k ps) (?h k)"
    if "k \<in> set ?T" for k
  proof -
    from that have "k \<in> fst ` set kvs" by (simp add: in_touched_iff)
    then obtain v where kv: "(k, v) \<in> set kvs" by auto
    with PDict.prems have v: "?val k = v" "wf v" by auto
    from PDict.prems(2) kv have "all_ok (sub_paths k ps) v" by (rule all_ok_sub_paths)
    with PDict.IH [OF kv \<open>wf v\<close>, of "sub_paths k ps"] show ?thesis
      unfolding v(1) by blast
  qed
  have T': "touched ps ?kvs' = ?T'"
    by (rule touched_map_keys [where P = "\<lambda>k. \<not> is_empty_container (?h k)" and kvs = kvs]) auto
  have val': "the (map_of ?kvs' k) = ?h k" if "k \<in> set ?T'" for k
    using that by (simp add: map_of_map_keys)
  have "prune (proj ps (PDict ?kvs')) =
      PDict (map (\<lambda>k. (k, prune (proj (sub_paths k ps) (the (map_of ?kvs' k)))))
              (filter (\<lambda>k. \<not> is_empty_container (prune (proj (sub_paths k ps) (the (map_of ?kvs' k)))))
                 ?T'))"
    unfolding prune_proj_PDict T' ..
  also have "\<dots> = PDict (map (\<lambda>k. (k, ?h k)) (filter (\<lambda>k. \<not> is_empty_container (?h k)) ?T'))"
  proof -
    have e: "prune (proj (sub_paths k ps) (the (map_of ?kvs' k))) = ?h k" if "k \<in> set ?T'" for k
    proof -
      from that have "k \<in> set ?T" by simp
      from ih [OF this] show ?thesis unfolding val' [OF that] by blast
    qed
    have f: "filter (\<lambda>k. \<not> is_empty_container (prune (proj (sub_paths k ps) (the (map_of ?kvs' k))))) ?T'
        = filter (\<lambda>k. \<not> is_empty_container (?h k)) ?T'"
      by (rule filter_cong [OF refl]) (simp only: e)
    have g: "map (\<lambda>k. (k, prune (proj (sub_paths k ps) (the (map_of ?kvs' k))))) ks
        = map (\<lambda>k. (k, ?h k)) ks" if "set ks \<subseteq> set ?T'" for ks
      by (rule map_cong [OF refl]) (use that e in auto)
    show ?thesis
      unfolding f by (simp only: g [OF filter_is_subset])
  qed
  also have "\<dots> = PDict ?kvs'" by simp
  finally have idem: "prune (proj ps (PDict ?kvs')) = PDict ?kvs'" .
  have ok: "all_ok ps (PDict ?kvs')"
    unfolding all_ok_def
  proof
    fix p assume p: "p \<in> set ps"
    show "path_ok p (PDict ?kvs')"
    proof (cases p)
      case Nil
      with p PDict.prems(2) have "kvs = []"
        by (auto simp: all_ok_def path_ok_items_iff)
      then show ?thesis by simp
    next
      case (Cons l ls)
      have "path_ok ls (?h l)" if "l \<in> set ?T'"
      proof -
        from that have "l \<in> set ?T" by simp
        from ih [OF this] have "all_ok (sub_paths l ps) (?h l)" by blast
        moreover have "ls \<in> set (sub_paths l ps)"
          using p Cons by (force simp: sub_paths_def)
        ultimately show ?thesis by (simp add: all_ok_def)
      qed
      with Cons show ?thesis
        by (auto simp: path_ok_items_iff)
    qed
  qed
  from idem ok show ?case unfolding F by blast
qed (simp_all add: all_ok_def)

lemma save_paths_scalar:
  "\<not> is_container row \<Longrightarrow> save_paths saved row ps = (saved, None)"
  by (induction ps) (cases row; simp)+

lemma save_paths_empty_list: "save_paths saved (PList []) ps = (saved, None)"
  by (induction ps) simp_all

lemma save_paths_empty_dict: "save_paths saved (PDict []) ps = (saved, None)"
  by (induction ps) simp_all

lemma save_paths_list_fails:
  "save_paths (PDict []) (PList (x # xs)) (p # ps) = (PDict [], Some KeyError)"
  by simp

lemma filter_row_empty_dict: "filter_row ps (PDict []) = Inr (PDict [])"
  by (simp add: filter_row_def save_paths_empty_dict)

lemma filter_row_dict_idem:
  assumes "wf (PDict kvs)" "filter_row ps (PDict kvs) = Inr r"
  shows "filter_row ps r = Inr r"
proof -
  from assms filter_row_eq [OF assms(1), of ps]
  have ok: "all_ok ps (PDict kvs)" and r: "r = prune (proj ps (PDict kvs))"
    by auto
  from prune_proj_idem [OF assms(1) ok]
  have idem: "prune (proj ps r) = r" and ok': "all_ok ps r"
    unfolding r by blast+
  obtain kvs' where d: "r = PDict kvs'"
    unfolding r by simp
  have "wf r" unfolding r by (intro wf_prune wf_proj assms(1))
  then have "wf (PDict kvs')" unfolding d .
  from filter_row_eq [OF this, of ps] ok' idem show ?thesis
    unfolding d by simp
qed

lemma filter_row_idem:
  assumes "wf row" "filter_row ps row = Inr r"
  shows "filter_row ps r = Inr r"
proof (cases row)
  case (PDict kvs)
  with assms show ?thesis by (simp add: filter_row_dict_idem)
next
  case (PList xs)
  show ?thesis
  proof (cases "xs = [] \<or> ps = []")
    case True
    then have "save_paths (PDict []) row ps = (PDict [], None)"
      unfolding PList by (auto simp: save_paths_empty_list)
    with assms(2) have "r = PDict []"
      by (simp add: filter_row_def)
    then show ?thesis by (simp add: filter_row_empty_dict)
  next
    case False
    then obtain x xs' p ps' where "xs = x # xs'" "ps = p # ps'"
      by (cases xs; cases ps) auto
    with assms(2) PList show ?thesis
      by (simp add: filter_row_def)
  qed
next
  case PNone
  with assms(2) have "r = PDict []" by (simp add: filter_row_def save_paths_scalar)
  then show ?thesis by (simp add: filter_row_empty_dict)
next
  case (PBool b)
  with assms(2) have "r = PDict []" by (simp add: filter_row_def save_paths_scalar)
  then show ?thesis by (simp add: filter_row_empty_dict)
next
  case (PInt n)
  with assms(2) have "r = PDict []" by (simp add: filter_row_def save_paths_scalar)
  then show ?thesis by (simp add: filter_row_empty_dict)
next
  case (PStr s)
  with assms(2) have "r = PDict []" by (simp add: filter_row_def save_paths_scalar)
  then show ?thesis by (simp add: filter_row_empty_dict)
qed

subsection \<open>Pruning keeps the scalars and leaves no empty container\<close>

lemma no_empty_inside_prune: "no_empty_inside (prune v)"
  by (induction v rule: pyval_induct) auto

lemma leaves_items_map_of:
  "leaves_items p kvs =
     (case p of [] \<Rightarrow> []
      | l # ls \<Rightarrow> (case map_of kvs l of None \<Rightarrow> [] | Some v \<Rightarrow> leaves_at ls v))"
  by (induction kvs) (auto split: list.splits)

lemma leaves_at_empty_container: "is_empty_container v \<Longrightarrow> leaves_at p v = []"
  by (auto simp: is_empty_container_def)

lemma map_of_prune_items:
  "distinct (map fst kvs) \<Longrightarrow>
   map_of (filter (\<lambda>kv. \<not> is_empty_container (snd kv))
             (map (\<lambda>kv. (fst kv, prune (snd kv))) kvs)) l =
     (case map_of kvs l of None \<Rightarrow> None
      | Some v \<Rightarrow> if is_empty_container (prune v) then None else Some (prune v))"
proof (induction kvs)
  case Nil
  then show ?case by simp
next
  case (Cons kv kvs)
  show ?case
  proof (cases "fst kv = l")
    case True
    with Cons.prems have "l \<notin> fst ` set kvs" by auto
    then have "map_of kvs l = None" by (simp add: map_of_eq_None_iff)
    with Cons True show ?thesis by (cases kv) auto
  next
    case False
    with Cons show ?thesis by (cases kv) auto
  qed
qed

lemma leaves_at_prune: "wf v \<Longrightarrow> leaves_at p (prune v) = leaves_at p v"
proof (induction v arbitrary: p rule: pyval_induct)
  case (PList xs)
  have "concat (map (leaves_at p) (filter (\<lambda>x. \<not> is_empty_container x) (map prune xs)))
      = concat (map (leaves_at p) xs)"
    using PList
  proof (induction xs)
    case Nil
    then show ?case by simp
  next
    case (Cons x xs)
    then have e: "leaves_at p (prune x) = leaves_at p x" by simp
    have z: "leaves_at p x = []" if "is_empty_container (prune x)"
      using e leaves_at_empty_container [OF that, of p] by simp
    from Cons have "concat (map (leaves_at p) (filter (\<lambda>x. \<not> is_empty_container x) (map prune xs)))
      = concat (map (leaves_at p) xs)" by simp
    with e z show ?case by simp
  qed
  then show ?case by simp
next
  case (PDict kvs)
  let ?kvs' = "filter (\<lambda>kv. \<not> is_empty_container (snd kv)) (map (\<lambda>kv. (fst kv, prune (snd kv))) kvs)"
  show ?case
  proof (cases p)
    case Nil
    then show ?thesis by (simp add: leaves_items_map_of)
  next
    case (Cons l ls)
    have m: "map_of ?kvs' l =
       (case map_of kvs l of None \<Rightarrow> None
        | Some v \<Rightarrow> if is_empty_container (prune v) then None else Some (prune v))"
      using PDict.prems by (intro map_of_prune_items) simp
    show ?thesis
    proof (cases "map_of kvs l")
      case None
      with m Cons show ?thesis by (simp add: leaves_items_map_of)
    next
      case (Some v)
      then have kv: "(l, v) \<in> set kvs" by (rule map_of_SomeD)
      with PDict.prems have "wf v" by auto
      with kv have e: "leaves_at ls (prune v) = leaves_at ls v" by (rule PDict.IH)
      show ?thesis
      proof (cases "is_empty_container (prune v)")
        case True
        with e have "leaves_at ls v = []" by (simp add: leaves_at_empty_container)
        with True m Some Cons show ?thesis by (simp add: leaves_items_map_of)
      next
        case False
        with e m Some Cons show ?thesis by (simp add: leaves_items_map_of)
      qed
    qed
  qed
qed simp_all

lemma prefix_sub_paths:
  "(\<exists>p \<in> set ps. prefix (l # ls) p) \<longleftrightarrow> (\<exists>p' \<in> set (sub_paths l ps). prefix ls p')"
proof
  assume "\<exists>p \<in> set ps. prefix (l # ls) p"
  then obtain p where p: "p \<in> set ps" "prefix (l # ls) p" by blast
  from p(2) obtain r where "p = l # r" "prefix ls r"
    by (cases p) auto
  with p(1) have "r \<in> set (sub_paths l ps)"
    by (force simp: sub_paths_def)
  with \<open>prefix ls r\<close> show "\<exists>p' \<in> set (sub_paths l ps). prefix ls p'" by blast
next
  assume "\<exists>p' \<in> set (sub_paths l ps). prefix ls p'"
  then obtain p where p: "p \<in> set ps" "p \<noteq> []" "hd p = l" "prefix ls (tl p)"
    by (auto simp: sub_paths_def)
  from p(2-4) have "prefix (l # ls) p" by (cases p) auto
  with p(1) show "\<exists>p \<in> set ps. prefix (l # ls) p" by blast
qed

lemma leaves_at_proj:
  "wf v \<Longrightarrow> ps \<noteq> [] \<or> is_container v \<Longrightarrow>
     leaves_at q (proj ps v) = (if \<exists>p \<in> set ps. prefix q p then leaves_at q v else [])"
proof (induction v arbitrary: ps q rule: pyval_induct)
  case (PList xs)
  show ?case
  proof (cases "ps = []")
    case True
    then show ?thesis by simp
  next
    case False
    have "leaves_at q (proj ps x) = (if \<exists>p \<in> set ps. prefix q p then leaves_at q x else [])"
      if "x \<in> set xs" for x
      using that PList.IH [OF that, of ps q] PList.prems(1) False by simp
    then have "map (\<lambda>x. leaves_at q (proj ps x)) xs
        = map (\<lambda>x. if \<exists>p \<in> set ps. prefix q p then leaves_at q x else []) xs"
      by simp
    then have "concat (map (\<lambda>x. leaves_at q (proj ps x)) xs)
        = (if \<exists>p \<in> set ps. prefix q p then concat (map (leaves_at q) xs) else [])"
      by (simp only:) simp
    with False show ?thesis
      by (simp add: comp_def)
  qed
next
  case (PDict kvs)
  let ?T = "touched ps kvs"
  let ?g = "\<lambda>k. proj (sub_paths k ps) (the (map_of kvs k))"
  show ?case
  proof (cases q)
    case Nil
    then show ?thesis by (simp add: leaves_items_map_of)
  next
    case (Cons l ls)
    have lhs: "leaves_at q (proj ps (PDict kvs)) =
        (if l \<in> set ?T then leaves_at ls (?g l) else [])"
      using Cons by (simp add: leaves_items_map_of map_of_map_keys)
    show ?thesis
    proof (cases "l \<in> set ?T")
      case True
      then have "l \<in> fst ` set kvs" and ne: "sub_paths l ps \<noteq> []"
        by (simp_all add: in_touched_iff)
      then obtain v where kv: "(l, v) \<in> set kvs" by auto
      with PDict.prems have v: "map_of kvs l = Some v" "wf v" by auto
      from PDict.IH [OF kv v(2), of "sub_paths l ps" ls] ne
      have "leaves_at ls (proj (sub_paths l ps) v) =
          (if \<exists>p' \<in> set (sub_paths l ps). prefix ls p' then leaves_at ls v else [])"
        by simp
      with True lhs v(1) Cons show ?thesis
        by (simp add: leaves_items_map_of prefix_sub_paths)
    next
      case False
      then have "l \<notin> fst ` set kvs \<or> sub_paths l ps = []"
        by (simp add: in_touched_iff)
      then have "(if \<exists>p \<in> set ps. prefix q p then leaves_at q (PDict kvs) else []) = []"
      proof
        assume "l \<notin> fst ` set kvs"
        then have "map_of kvs l = None" by (simp add: map_of_eq_None_iff)
        with Cons show ?thesis by (simp add: leaves_items_map_of)
      next
        assume "sub_paths l ps = []"
        then have "\<not> (\<exists>p \<in> set ps. prefix (l # ls) p)"
          unfolding prefix_sub_paths by simp
        with Cons show ?thesis by simp
      qed
      with False lhs show ?thesis by simp
    qed
  qed
qed auto

lemma filter_row_leaves:
  assumes "wf (PDict kvs)" "filter_row ps (PDict kvs) = Inr r"
  shows "leaves_at q r = (if \<exists>p \<in> set ps. prefix q p then leaves_at q (PDict kvs) else [])"
proof -
  from assms filter_row_eq [OF assms(1), of ps]
  have r: "r = prune (proj ps (PDict kvs))" by auto
  have "leaves_at q r = leaves_at q (proj ps (PDict kvs))"
    unfolding r by (intro leaves_at_prune wf_proj assms(1))
  also have "\<dots> = (if \<exists>p \<in> set ps. prefix q p then leaves_at q (PDict kvs) else [])"
    by (rule leaves_at_proj [OF assms(1)]) simp
  finally show ?thesis .
qed

text \<open>
  When the row holds no scalar at a proper prefix of a selected path, the scalars along
  the selected paths are the scalars at the selected paths. The filter returns exactly
  when no selected path ends on a dictionary with items, and its result is a nested row
  without empty containers.
\<close>

lemma no_early_scalar_iff:
  "no_early_scalar paths row \<longleftrightarrow>
     (\<forall>t \<in> set paths. \<forall>q. strict_prefix q t \<longrightarrow> leaves_at q row = [])"
  unfolding no_early_scalar_def list_all_iff strict_prefix_def
  by (simp only: in_set_prefixes Ball_def) blast

lemma exactly_selected_from_leaves:
  assumes "\<And>q. leaves_at q out =
      (if \<exists>t \<in> set paths. prefix q t then leaves_at q row else [])"
    and "no_early_scalar paths row"
  shows "exactly_selected_values paths row out"
  unfolding exactly_selected_values_def
proof
  fix q
  show "leaves_at q out = (if q \<in> set paths then leaves_at q row else [])"
  proof (cases "q \<in> set paths")
    case True
    then have "\<exists>t \<in> set paths. prefix q t" by auto
    with True assms(1) [of q] show ?thesis by simp
  next
    case False
    show ?thesis
    proof (cases "\<exists>t \<in> set paths. prefix q t")
      case True
      then obtain t where t: "t \<in> set paths" "prefix q t" by blast
      with False have "strict_prefix q t" by (auto simp: strict_prefix_def)
      with assms(2) t(1) have "leaves_at q row = []"
        by (simp add: no_early_scalar_iff)
      with True False assms(1) [of q] show ?thesis by simp
    next
      case nope: False
      with False assms(1) [of q] show ?thesis by simp
    qed
  qed
qed

lemma filter_row_returns_iff:
  assumes "wf (PDict kvs)"
  shows "(\<exists>out. filter_row ps (PDict kvs) = Inr out) \<longleftrightarrow> all_ok ps (PDict kvs)"
  using filter_row_eq [OF assms, of ps] by auto

lemma filter_row_result:
  assumes "wf (PDict kvs)" "filter_row ps (PDict kvs) = Inr out"
  shows "wf out \<and> no_empty_inside out"
proof -
  from assms filter_row_eq [OF assms(1), of ps]
  have r: "out = prune (proj ps (PDict kvs))" by auto
  show ?thesis unfolding r
    by (intro conjI wf_prune wf_proj assms(1) no_empty_inside_prune)
qed

lemma filter_row_raises:
  assumes "wf (PDict kvs)" "\<not> all_ok ps (PDict kvs)"
  shows "filter_row ps (PDict kvs) = Inl IndexError"
  using filter_row_eq [OF assms(1), of ps] assms(2) by simp

section \<open>The SQL connector: what the loops do\<close>

lemma client_fields [simp]:
  "calls (client self) = calls self" "store (client self) = store self"
  "db_client (client self) = True"
  by (simp_all add: client_def)

lemma connection_execute_calls:
  "connection_execute exec stmt self = (res, self') \<Longrightarrow>
     calls self' = calls self @ [(stmt, res)]"
  by (auto simp: connection_execute_def split: prod.splits)

lemma mask_rows_result:
  "mask_rows qc exec policy request rows ct self = (Inr n, self') \<Longrightarrow>
     \<exists>entries. calls self' = calls self @ entries
       \<and> map fst entries = List.map_filter (\<lambda>row. generate_update_stmt qc row policy request) rows
       \<and> n = ct + sum_list (map call_rowcount entries)"
proof (induction rows arbitrary: ct self)
  case Nil
  then show ?case by (simp add: List.map_filter_simps)
next
  case (Cons row rows)
  show ?case
  proof (cases "generate_update_stmt qc row policy request")
    case None
    with Cons.prems have "mask_rows qc exec policy request rows ct self = (Inr n, self')"
      by simp
    from Cons.IH [OF this] None show ?thesis
      by (simp add: List.map_filter_simps)
  next
    case (Some update_stmt)
    obtain res self1 where ex: "connection_execute exec update_stmt self = (res, self1)"
      by (cases "connection_execute exec update_stmt self")
    with Cons.prems Some obtain results where res: "res = Inr results"
      and rest: "mask_rows qc exec policy request rows (ct + rowcount results) self1 = (Inr n, self')"
      by (cases res) auto
    from Cons.IH [OF rest] obtain entries where e:
      "calls self' = calls self1 @ entries"
      "map fst entries = List.map_filter (\<lambda>row. generate_update_stmt qc row policy request) rows"
      "n = ct + rowcount results + sum_list (map call_rowcount entries)"
      by auto
    from connection_execute_calls [OF ex] have c1: "calls self1 = calls self @ [(update_stmt, res)]" .
    let ?entries = "(update_stmt, res) # entries"
    have "calls self' = calls self @ ?entries" using e(1) c1 by simp
    moreover have "map fst ?entries =
        List.map_filter (\<lambda>row. generate_update_stmt qc row policy request) (row # rows)"
      using e(2) Some by (simp add: List.map_filter_simps)
    moreover have "n = ct + sum_list (map call_rowcount ?entries)"
      using e(3) res by (simp add: call_rowcount_def)
    ultimately show ?thesis by blast
  qed
qed

lemma spec_generate_update_stmt_None:
  "generate_update_stmt (spec_query_config node) row policy request = None \<longleftrightarrow>
     primary_key_values (node_fields node) row = []
     \<or> masked_values policy (node_fields node) row = []"
  by (simp add: spec_query_config_def spec_generate_update_stmt_def)

lemma filtered_input_empty:
  "no_usable_input node input_data \<Longrightarrow> filtered_input node input_data = []"
  by (induction input_data) (auto simp: no_usable_input_def filtered_input_def)

lemma retrieve_data_None:
  "generate_query (query_config node) input_data policy = None \<Longrightarrow>
     retrieve_data query_config exec self node policy input_data = (Inr [], client self)"
  by (simp add: retrieve_data_def)

lemma example_mask_data:
  "mask_data spec_query_config example_exec example_connector example_customer_node
      example_erasure_policy example_request example_customer_rows
   = (Inr 2, example_masked_connector)"
  by (simp add: mask_data_def spec_query_config_def spec_generate_update_stmt_def
      primary_key_values_def masked_values_def erasure_rule_for_def field_matches_def
      category_matches_def connection_execute_def client_def List.map_filter_simps
      example_exec_def example_connector_def example_customer_node_def
      example_erasure_policy_def example_customer_rows_def example_masked_connector_def)

lemma example_no_usable_input: "no_usable_input example_customer_node example_no_input"
  by (simp add: no_usable_input_def example_customer_node_def example_no_input_def
      query_fields_def)

lemma example_usable_input:
  "generate_query (spec_query_config example_customer_node)
      [(''email'', PList [PStr ''customer-1@example.com''])] []
   = Some (Select (''postgres_example_test_dataset'', ''customer'')
        [(''email'', [PStr ''customer-1@example.com''])])"
  by (simp add: spec_query_config_def spec_generate_query_def filtered_input_def
      query_fields_def example_customer_node_def)

section \<open>Runs of the task execution engine\<close>

lemma error_name_not_no_pk: "error_name e \<noteq> NO_PRIMARY_KEY_MESSAGE"
  by (cases e) (simp_all add: NO_PRIMARY_KEY_MESSAGE_def)

lemma add_log_fields [simp]:
  "connector_state (add_log request node act st msg s) = connector_state s"
  "published (add_log request node act st msg s) = published s"
  "access_results (add_log request node act st msg s) = access_results s"
  "erasure_results (add_log request node act st msg s) = erasure_results s"
  "task_inputs (add_log request node act st msg s) = task_inputs s"
  "task_attempts (add_log request node act st msg s) = task_attempts s"
  by (simp_all add: add_log_def)

lemma add_log_logs:
  "\<exists>l. task_logs (add_log request node act st msg s) = task_logs s @ [l]
      \<and> status l = st \<and> message l = msg \<and> action_type l = act
      \<and> dataset_name l = fst (node_address node) \<and> collection_name l = snd (node_address node)"
  by (simp add: add_log_def)

lemma record_attempt_fields [simp]:
  "connector_state (record_attempt node b c s) = c"
  "published (record_attempt node b c s) = published s"
  "access_results (record_attempt node b c s) = access_results s"
  "erasure_results (record_attempt node b c s) = erasure_results s"
  "task_inputs (record_attempt node b c s) = task_inputs s"
  "task_logs (record_attempt node b c s) = task_logs s"
  "task_attempts (record_attempt node b c s) = task_attempts s @ [(node_address node, b)]"
  by (simp_all add: record_attempt_def)

lemma run_with_retries_trace:
  "run_with_retries request node act call k s = (r, s') \<Longrightarrow>
     \<exists>news atts. retry_trace node k s r s' news atts"
proof (induction k arbitrary: s)
  case 0
  obtain res c where call: "call (connector_state s) = (res, c)"
    by (cases "call (connector_state s)")
  show ?case
  proof (cases res)
    case (Inl e)
    let ?s1 = "record_attempt node False c s"
    from add_log_logs [of request node act error "Some (error_name e)" ?s1]
    obtain l where l: "task_logs (add_log request node act error (Some (error_name e)) ?s1) = task_logs s @ [l]"
      "status l = error" "message l = Some (error_name e)"
      "dataset_name l = fst (node_address node)" "collection_name l = snd (node_address node)"
      by auto
    from 0 call Inl have r: "r = None"
      and s': "s' = add_log request node act error (Some (error_name e)) ?s1"
      by auto
    have "retry_trace node 0 s r s' [l] [False]"
      unfolding retry_trace_def r s'
      using l by (simp add: node_log_def error_name_not_no_pk)
    then show ?thesis by blast
  next
    case (Inr x)
    let ?s1 = "record_attempt node True c s"
    from add_log_logs [of request node act complete None ?s1]
    obtain l where l: "task_logs (add_log request node act complete None ?s1) = task_logs s @ [l]"
      "status l = complete" "message l = None"
      "dataset_name l = fst (node_address node)" "collection_name l = snd (node_address node)"
      by auto
    from 0 call Inr have r: "r = Some x"
      and s': "s' = add_log request node act complete None ?s1"
      by auto
    have "retry_trace node 0 s r s' [l] [True]"
      unfolding retry_trace_def r s'
      using l by (simp add: node_log_def)
    then show ?thesis by blast
  qed
next
  case (Suc k)
  obtain res c where call: "call (connector_state s) = (res, c)"
    by (cases "call (connector_state s)")
  show ?case
  proof (cases res)
    case (Inr x)
    let ?s1 = "record_attempt node True c s"
    from add_log_logs [of request node act complete None ?s1]
    obtain l where l: "task_logs (add_log request node act complete None ?s1) = task_logs s @ [l]"
      "status l = complete" "message l = None"
      "dataset_name l = fst (node_address node)" "collection_name l = snd (node_address node)"
      by auto
    from Suc.prems call Inr have r: "r = Some x"
      and s': "s' = add_log request node act complete None ?s1"
      by auto
    have "retry_trace node (Suc k) s r s' [l] [True]"
      unfolding retry_trace_def r s'
      using l by (simp add: node_log_def)
    then show ?thesis by blast
  next
    case (Inl e)
    let ?s1 = "record_attempt node False c s"
    let ?s2 = "add_log request node act retrying None ?s1"
    from add_log_logs [of request node act retrying None ?s1]
    obtain l where l: "task_logs ?s2 = task_logs s @ [l]"
      "status l = retrying" "message l = None"
      "dataset_name l = fst (node_address node)" "collection_name l = snd (node_address node)"
      by auto
    from Suc.prems call Inl have "run_with_retries request node act call k ?s2 = (r, s')"
      by simp
    from Suc.IH [OF this] obtain news atts where t: "retry_trace node k ?s2 r s' news atts"
      by blast
    have "retry_trace node (Suc k) s r s' (l # news) (False # atts)"
    proof -
      from t have base: "task_logs s' = task_logs s @ l # news"
        "task_attempts s' = task_attempts s @ map (Pair (node_address node)) (False # atts)"
        "published s' = published s" "access_results s' = access_results s"
        "erasure_results s' = erasure_results s" "task_inputs s' = task_inputs s"
        "list_all (node_log node) (l # news)"
        using l by (simp_all add: retry_trace_def node_log_def)
      from t have "(\<exists>f. r \<noteq> None \<and> f \<le> k \<and> atts = replicate f False @ [True]
               \<and> map status news = replicate f retrying @ [complete])
          \<or> (r = None \<and> atts = replicate (Suc k) False
               \<and> map status news = replicate k retrying @ [error])"
        by (simp add: retry_trace_def)
      then have "(\<exists>f. r \<noteq> None \<and> f \<le> Suc k \<and> False # atts = replicate f False @ [True]
               \<and> map status (l # news) = replicate f retrying @ [complete])
          \<or> (r = None \<and> False # atts = replicate (Suc (Suc k)) False
               \<and> map status (l # news) = replicate (Suc k) retrying @ [error])"
      proof
        assume "\<exists>f. r \<noteq> None \<and> f \<le> k \<and> atts = replicate f False @ [True]
               \<and> map status news = replicate f retrying @ [complete]"
        then obtain f where "r \<noteq> None" "f \<le> k" "atts = replicate f False @ [True]"
          "map status news = replicate f retrying @ [complete]" by blast
        then have "r \<noteq> None \<and> Suc f \<le> Suc k \<and> False # atts = replicate (Suc f) False @ [True]
               \<and> map status (l # news) = replicate (Suc f) retrying @ [complete]"
          using l(2) by simp
        then show ?thesis by blast
      next
        assume "r = None \<and> atts = replicate (Suc k) False
               \<and> map status news = replicate k retrying @ [error]"
        then show ?thesis using l(2) by simp
      qed
      with base show ?thesis
        unfolding retry_trace_def by blast
    qed
    then show ?thesis by blast
  qed
qed

lemma run_with_retries_value:
  "run_with_retries request node act call k s = (Some x, s') \<Longrightarrow> \<exists>c. fst (call c) = Inr x"
proof (induction k arbitrary: s)
  case 0
  obtain res c where call: "call (connector_state s) = (res, c)"
    by (cases "call (connector_state s)")
  with 0 have "res = Inr x" by (cases res) auto
  with call have "fst (call (connector_state s)) = Inr x" by simp
  then show ?case by blast
next
  case (Suc k)
  obtain res c where call: "call (connector_state s) = (res, c)"
    by (cases "call (connector_state s)")
  show ?case
  proof (cases res)
    case (Inr y)
    with Suc.prems call have "y = x" by simp
    with call Inr have "fst (call (connector_state s)) = Inr x" by simp
    then show ?thesis by blast
  next
    case (Inl e)
    with Suc.prems call have
      "run_with_retries request node act call k
         (add_log request node act retrying None (record_attempt node False c s)) = (Some x, s')"
      by simp
    then show ?thesis by (rule Suc.IH)
  qed
qed

lemma access_task_effect:
  "\<exists>news atts rows.
     access_effect retrieve policy node (nat (TASK_RETRY_COUNT cfg)) s
       (access_task retrieve cfg request policy node s) news atts rows"
proof -
  let ?K = "nat (TASK_RETRY_COUNT cfg)"
  let ?inp = "build_input node (published s)"
  let ?s1 = "add_log request node access in_processing None s"
  let ?s2 = "?s1\<lparr>task_inputs := task_inputs ?s1 @ [(node_address node, ?inp)]\<rparr>"
  from add_log_logs [of request node access in_processing None s]
  obtain l where l: "task_logs ?s1 = task_logs s @ [l]" "status l = in_processing"
    "message l = None" "dataset_name l = fst (node_address node)"
    "collection_name l = snd (node_address node)"
    by auto
  obtain r s3 where run: "run_with_retries request node access (retrieve node policy ?inp) ?K ?s2 = (r, s3)"
    by (cases "run_with_retries request node access (retrieve node policy ?inp) ?K ?s2")
  from run_with_retries_trace [OF run] obtain news atts where t: "retry_trace node ?K ?s2 r s3 news atts"
    by blast
  have s2: "task_logs ?s2 = task_logs s @ [l]" "task_attempts ?s2 = task_attempts s"
    "published ?s2 = published s" "access_results ?s2 = access_results s"
    "erasure_results ?s2 = erasure_results s"
    "task_inputs ?s2 = task_inputs s @ [(node_address node, ?inp)]"
    using l(1) by simp_all
  have nl: "node_log node l" using l by (simp add: node_log_def)
  show ?thesis
  proof (cases r)
    case None
    then have s': "access_task retrieve cfg request policy node s
        = s3\<lparr>published := published s3 @ [(node_address node, [])]\<rparr>"
      using run by (simp add: access_task_def Let_def)
    from t None have "map status news = replicate ?K retrying @ [error]"
      "atts = replicate (Suc ?K) False"
      by (auto simp: retry_trace_def)
    with t nl have "access_effect retrieve policy node ?K s
        (access_task retrieve cfg request policy node s) (l # news) atts []"
      unfolding s' access_effect_def retry_trace_def s2
      using l(2) by simp
    then show ?thesis by blast
  next
    case (Some rows)
    then have s': "access_task retrieve cfg request policy node s
        = s3\<lparr>published := published s3 @ [(node_address node, rows)],
              access_results := access_results s3 @ [(node_address node, rows)]\<rparr>"
      using run by (simp add: access_task_def Let_def)
    from run Some have "\<exists>c. fst (retrieve node policy ?inp c) = Inr rows"
      by (auto dest: run_with_retries_value)
    moreover from t Some obtain f where "f \<le> ?K" "atts = replicate f False @ [True]"
      "map status news = replicate f retrying @ [complete]"
      by (auto simp: retry_trace_def)
    ultimately have "access_effect retrieve policy node ?K s
        (access_task retrieve cfg request policy node s) (l # news) atts rows"
      unfolding s' access_effect_def
      using t nl l(2) s2 by (auto simp: retry_trace_def)
    then show ?thesis by blast
  qed
qed

lemma logs_for_other:
  "list_all (node_log node) news \<Longrightarrow> node_address node \<noteq> b \<Longrightarrow> logs_for b news = []"
  by (induction news) (auto simp: logs_for_def node_log_def prod_eq_iff)

lemma logs_for_own:
  "list_all (node_log node) news \<Longrightarrow> logs_for (node_address node) news = news"
  by (induction news) (auto simp: logs_for_def node_log_def)

lemma logs_for_append: "logs_for b (xs @ ys) = logs_for b xs @ logs_for b ys"
  by (simp add: logs_for_def)

lemma attempts_for_append: "attempts_for b (xs @ ys) = attempts_for b xs @ attempts_for b ys"
  by (simp add: attempts_for_def)

lemma attempts_for_Pair:
  "attempts_for b (map (Pair a) atts) = (if a = b then atts else [])"
  by (induction atts) (auto simp: attempts_for_def)

lemma map_of_snoc:
  "map_of (xs @ [(a, v)]) b = (case map_of xs b of Some w \<Rightarrow> Some w
      | None \<Rightarrow> if a = b then Some v else None)"
  by (induction xs) auto

lemma map_of_snoc_other: "a \<noteq> b \<Longrightarrow> map_of (xs @ [(a, v)]) b = map_of xs b"
  by (induction xs) auto

lemma access_effect_frame:
  assumes "access_effect retrieve policy node k s s' news atts rows" "node_address node \<noteq> b"
  shows "view b s' = view b s"
proof -
  from assms have "logs_for b (task_logs s') = logs_for b (task_logs s)"
    by (auto simp: access_effect_def logs_for_append logs_for_other)
  moreover from assms have "attempts_for b (task_attempts s') = attempts_for b (task_attempts s)"
    by (auto simp: access_effect_def attempts_for_append attempts_for_Pair)
  moreover from assms have "map_of (published s') b = map_of (published s) b"
    by (auto simp: access_effect_def map_of_snoc_other simp del: map_of_append)
  moreover from assms have "map_of (access_results s') b = map_of (access_results s) b"
    by (auto simp: access_effect_def map_of_snoc_other simp del: map_of_append)
  moreover from assms have "map_of (task_inputs s') b = map_of (task_inputs s) b"
    by (auto simp: access_effect_def map_of_snoc_other simp del: map_of_append)
  ultimately show ?thesis by (simp add: view_def)
qed

lemma access_task_frame:
  "node_address node \<noteq> b \<Longrightarrow> view b (access_task retrieve cfg request policy node s) = view b s"
  using access_task_effect [of retrieve policy node cfg s request] access_effect_frame
  by blast

lemma run_access_tasks_frame:
  "b \<notin> node_address ` set nodes \<Longrightarrow>
     view b (run_access_tasks retrieve cfg request policy nodes s) = view b s"
  by (induction nodes arbitrary: s) (auto simp: access_task_frame)

lemma run_access_tasks_append:
  "run_access_tasks retrieve cfg request policy (xs @ ys) s =
     run_access_tasks retrieve cfg request policy ys
       (run_access_tasks retrieve cfg request policy xs s)"
  by (induction xs arbitrary: s) auto

lemma view_initial:
  "view b (initial_state c seed []) =
     ([], [], if b = ROOT_ADDRESS then Some [seed] else None, None, None)"
  by (simp add: view_def initial_state_def logs_for_def attempts_for_def)

text \<open>the view of a node of the run is the effect of its own task\<close>

lemma node_view:
  assumes n: "n \<in> set order" and d: "distinct (map node_address order)"
  shows "\<exists>pre news atts rows.
      set pre \<subseteq> set order
      \<and> access_effect retrieve policy n (nat (TASK_RETRY_COUNT cfg))
          (run_access_tasks retrieve cfg request policy pre (initial_state c seed []))
          (access_task retrieve cfg request policy n
             (run_access_tasks retrieve cfg request policy pre (initial_state c seed [])))
          news atts rows
      \<and> view (node_address n)
            (run_access_tasks retrieve cfg request policy pre (initial_state c seed []))
          = ([], [], if node_address n = ROOT_ADDRESS then Some [seed] else None, None, None)
      \<and> view (node_address n) (run_access_request retrieve cfg request policy order seed c)
          = view (node_address n) (access_task retrieve cfg request policy n
               (run_access_tasks retrieve cfg request policy pre (initial_state c seed [])))"
proof -
  from n obtain pre post where o: "order = pre @ n # post"
    by (auto simp: in_set_conv_decomp)
  with d have a: "node_address n \<notin> node_address ` set pre" "node_address n \<notin> node_address ` set post"
    by auto
  let ?s = "run_access_tasks retrieve cfg request policy pre (initial_state c seed [])"
  have v0: "view (node_address n) ?s =
      ([], [], if node_address n = ROOT_ADDRESS then Some [seed] else None, None, None)"
    using run_access_tasks_frame [OF a(1), of retrieve cfg request policy "initial_state c seed []"]
      view_initial [of "node_address n" c seed] by simp
  have fin: "view (node_address n) (run_access_request retrieve cfg request policy order seed c)
      = view (node_address n) (access_task retrieve cfg request policy n ?s)"
    unfolding run_access_request_def o run_access_tasks_append
    by (simp add: run_access_tasks_frame [OF a(2)])
  from access_task_effect [of retrieve policy n cfg ?s request]
  obtain news atts rows where
    "access_effect retrieve policy n (nat (TASK_RETRY_COUNT cfg)) ?s
        (access_task retrieve cfg request policy n ?s) news atts rows" by blast
  moreover have "set pre \<subseteq> set order" using o by auto
  ultimately show ?thesis using v0 fin by blast
qed

lemma node_outcome:
  assumes n: "n \<in> set order" and d: "distinct (map node_address order)"
  shows "(\<exists>f rows. node_completed (node_address n) (nat (TASK_RETRY_COUNT cfg))
             (run_access_request retrieve cfg request policy order seed c) f rows
           \<and> (\<exists>input_data c'. fst (retrieve n policy input_data c') = Inr rows))
       \<or> node_gave_up (node_address n) (nat (TASK_RETRY_COUNT cfg))
            (run_access_request retrieve cfg request policy order seed c)"
proof -
  let ?a = "node_address n"
  let ?K = "nat (TASK_RETRY_COUNT cfg)"
  let ?fin = "run_access_request retrieve cfg request policy order seed c"
  from n obtain pre post where o: "order = pre @ n # post"
    by (auto simp: in_set_conv_decomp)
  with d have a: "?a \<notin> node_address ` set pre" "?a \<notin> node_address ` set post"
    by auto
  let ?s = "run_access_tasks retrieve cfg request policy pre (initial_state c seed [])"
  have v0: "view ?a ?s = ([], [], if ?a = ROOT_ADDRESS then Some [seed] else None, None, None)"
    using run_access_tasks_frame [OF a(1), of retrieve cfg request policy "initial_state c seed []"]
      view_initial [of ?a c seed] by simp
  have fin: "view ?a ?fin = view ?a (access_task retrieve cfg request policy n ?s)"
    unfolding run_access_request_def o run_access_tasks_append
    by (simp add: run_access_tasks_frame [OF a(2)])
  from access_task_effect [of retrieve policy n cfg ?s request]
  obtain news atts rows where
    eff: "access_effect retrieve policy n ?K ?s
        (access_task retrieve cfg request policy n ?s) news atts rows" by blast
  let ?s' = "access_task retrieve cfg request policy n ?s"
  from v0 have pre: "logs_for ?a (task_logs ?s) = []" "attempts_for ?a (task_attempts ?s) = []"
    "map_of (access_results ?s) ?a = None"
    by (simp_all add: view_def)
  from fin have f: "logs_for ?a (task_logs ?fin) = logs_for ?a (task_logs ?s')"
    "attempts_for ?a (task_attempts ?fin) = attempts_for ?a (task_attempts ?s')"
    "map_of (access_results ?fin) ?a = map_of (access_results ?s') ?a"
    by (simp_all add: view_def)
  from eff have logs: "logs_for ?a (task_logs ?s') = news"
    using pre(1) by (simp add: access_effect_def logs_for_append logs_for_own)
  from eff have atts: "attempts_for ?a (task_attempts ?s') = atts"
    using pre(2) by (simp add: access_effect_def attempts_for_append attempts_for_Pair)
  from eff have "(\<exists>f. f \<le> ?K \<and> access_results ?s' = access_results ?s @ [(?a, rows)]
               \<and> map status news = in_processing # replicate f retrying @ [complete]
               \<and> atts = replicate f False @ [True]
               \<and> (\<exists>c'. fst (retrieve n policy (build_input n (published ?s)) c') = Inr rows))
          \<or> (access_results ?s' = access_results ?s \<and> rows = []
               \<and> map status news = in_processing # replicate ?K retrying @ [error]
               \<and> atts = replicate (Suc ?K) False)"
    by (simp only: access_effect_def)
  then show ?thesis
  proof
    assume "\<exists>f. f \<le> ?K \<and> access_results ?s' = access_results ?s @ [(?a, rows)]
               \<and> map status news = in_processing # replicate f retrying @ [complete]
               \<and> atts = replicate f False @ [True]
               \<and> (\<exists>c'. fst (retrieve n policy (build_input n (published ?s)) c') = Inr rows)"
    then obtain f where ok: "f \<le> ?K \<and> access_results ?s' = access_results ?s @ [(?a, rows)]
               \<and> map status news = in_processing # replicate f retrying @ [complete]
               \<and> atts = replicate f False @ [True]
               \<and> (\<exists>c'. fst (retrieve n policy (build_input n (published ?s)) c') = Inr rows)" ..
    then have "map_of (access_results ?s') ?a = Some rows"
      using pre(3) by (simp add: map_of_snoc del: map_of_append)
    with ok have "node_completed ?a ?K ?fin f rows"
      unfolding node_completed_def statuses_for_def f logs atts by simp
    moreover from ok have "\<exists>input_data c'. fst (retrieve n policy input_data c') = Inr rows"
      by blast
    ultimately show ?thesis by blast
  next
    assume bad: "access_results ?s' = access_results ?s \<and> rows = []
               \<and> map status news = in_processing # replicate ?K retrying @ [error]
               \<and> atts = replicate (Suc ?K) False"
    then have "node_gave_up ?a ?K ?fin"
      unfolding node_gave_up_def statuses_for_def f logs atts using pre(3) by simp
    then show ?thesis by blast
  qed
qed

lemma count_retrying_completed:
  "count_status retrying (in_processing # replicate f retrying @ [complete]) = f"
  by (simp add: count_status_def)

lemma count_retrying_gave_up:
  "count_status retrying (in_processing # replicate k retrying @ [error]) = k"
  by (simp add: count_status_def)

lemma node_effect:
  assumes n: "n \<in> set order" and d: "distinct (map node_address order)"
  obtains pre post news atts rows where
    "order = pre @ n # post"
    "access_effect retrieve policy n (nat (TASK_RETRY_COUNT cfg))
       (run_access_tasks retrieve cfg request policy pre (initial_state c seed []))
       (access_task retrieve cfg request policy n
          (run_access_tasks retrieve cfg request policy pre (initial_state c seed [])))
       news atts rows"
    "view (node_address n) (run_access_tasks retrieve cfg request policy pre (initial_state c seed []))
       = ([], [], if node_address n = ROOT_ADDRESS then Some [seed] else None, None, None)"
    "view (node_address n) (run_access_request retrieve cfg request policy order seed c)
       = view (node_address n) (access_task retrieve cfg request policy n
            (run_access_tasks retrieve cfg request policy pre (initial_state c seed [])))"
    "run_access_request retrieve cfg request policy order seed c
       = run_access_tasks retrieve cfg request policy post
           (access_task retrieve cfg request policy n
              (run_access_tasks retrieve cfg request policy pre (initial_state c seed [])))"
proof -
  let ?a = "node_address n"
  from n obtain pre post where o: "order = pre @ n # post"
    by (auto simp: in_set_conv_decomp)
  with d have a: "?a \<notin> node_address ` set pre" "?a \<notin> node_address ` set post"
    by auto
  let ?s = "run_access_tasks retrieve cfg request policy pre (initial_state c seed [])"
  have v0: "view ?a ?s = ([], [], if ?a = ROOT_ADDRESS then Some [seed] else None, None, None)"
    using run_access_tasks_frame [OF a(1), of retrieve cfg request policy "initial_state c seed []"]
      view_initial [of ?a c seed] by simp
  have run: "run_access_request retrieve cfg request policy order seed c
       = run_access_tasks retrieve cfg request policy post
           (access_task retrieve cfg request policy n ?s)"
    unfolding run_access_request_def o run_access_tasks_append by simp
  have fin: "view ?a (run_access_request retrieve cfg request policy order seed c)
      = view ?a (access_task retrieve cfg request policy n ?s)"
    unfolding run by (simp add: run_access_tasks_frame [OF a(2)])
  from access_task_effect [of retrieve policy n cfg ?s request]
  obtain news atts rows where
    eff: "access_effect retrieve policy n (nat (TASK_RETRY_COUNT cfg)) ?s
        (access_task retrieve cfg request policy n ?s) news atts rows" by blast
  from o eff v0 fin run show thesis by (rule that)
qed

lemma published_mono_task:
  "map_of (published s) b = Some r \<Longrightarrow>
     map_of (published (access_task retrieve cfg request policy node s)) b = Some r"
proof -
  assume b: "map_of (published s) b = Some r"
  from access_task_effect [of retrieve policy node cfg s request]
  obtain news atts rows where
    "access_effect retrieve policy node (nat (TASK_RETRY_COUNT cfg)) s
        (access_task retrieve cfg request policy node s) news atts rows" by blast
  then have "published (access_task retrieve cfg request policy node s)
      = published s @ [(node_address node, rows)]"
    by (simp only: access_effect_def)
  with b show ?thesis by (simp add: map_of_snoc del: map_of_append)
qed

lemma published_mono:
  "map_of (published s) b = Some r \<Longrightarrow>
     map_of (published (run_access_tasks retrieve cfg request policy nodes s)) b = Some r"
  by (induction nodes arbitrary: s) (auto simp: published_mono_task)

lemma logs_outside_order:
  assumes "b \<notin> node_address ` set order"
  shows "statuses_for b (task_logs (run_access_request retrieve cfg request policy order seed c)) = []"
proof -
  from run_access_tasks_frame [OF assms, of retrieve cfg request policy "initial_state c seed []"]
  have "view b (run_access_request retrieve cfg request policy order seed c)
      = view b (initial_state c seed [])"
    by (simp add: run_access_request_def)
  then show ?thesis
    by (simp add: view_def view_initial statuses_for_def initial_state_def logs_for_def)
qed

text \<open>an errored node has published the empty list\<close>

lemma errored_published:
  assumes d: "distinct (map node_address order)"
    and root: "ROOT_ADDRESS \<notin> node_address ` set order"
    and err: "error \<in> set (statuses_for b (task_logs (run_access_request retrieve cfg request policy order seed c)))"
  shows "map_of (published (run_access_request retrieve cfg request policy order seed c)) b = Some []"
proof -
  let ?fin = "run_access_request retrieve cfg request policy order seed c"
  have "b \<in> node_address ` set order"
  proof (rule ccontr)
    assume "b \<notin> node_address ` set order"
    from logs_outside_order [OF this, of retrieve cfg request policy seed c] err
    show False by simp
  qed
  then obtain n where n: "n \<in> set order" and b: "b = node_address n" by blast
  from root n have nr: "node_address n \<noteq> ROOT_ADDRESS" by force
  obtain pre post news atts rows where
    eff: "access_effect retrieve policy n (nat (TASK_RETRY_COUNT cfg))
       (run_access_tasks retrieve cfg request policy pre (initial_state c seed []))
       (access_task retrieve cfg request policy n
          (run_access_tasks retrieve cfg request policy pre (initial_state c seed [])))
       news atts rows"
    and v0: "view (node_address n) (run_access_tasks retrieve cfg request policy pre (initial_state c seed []))
       = ([], [], if node_address n = ROOT_ADDRESS then Some [seed] else None, None, None)"
    and fin: "view (node_address n) ?fin
       = view (node_address n) (access_task retrieve cfg request policy n
            (run_access_tasks retrieve cfg request policy pre (initial_state c seed [])))"
    using node_effect [OF n d, of retrieve policy cfg request c seed] by metis
  let ?s = "run_access_tasks retrieve cfg request policy pre (initial_state c seed [])"
  let ?s' = "access_task retrieve cfg request policy n ?s"
  from v0 nr have pre: "logs_for (node_address n) (task_logs ?s) = []"
    "map_of (published ?s) (node_address n) = None"
    by (simp_all add: view_def)
  from fin have f: "logs_for (node_address n) (task_logs ?fin) = logs_for (node_address n) (task_logs ?s')"
    "map_of (published ?fin) (node_address n) = map_of (published ?s') (node_address n)"
    by (simp_all add: view_def)
  from eff have logs: "logs_for (node_address n) (task_logs ?s') = news"
    using pre(1) by (simp add: access_effect_def logs_for_append logs_for_own)
  from eff have pub: "map_of (published ?s') (node_address n) = Some rows"
    using pre(2) by (simp add: access_effect_def map_of_snoc del: map_of_append)
  from err have e: "error \<in> set (map status news)"
    unfolding b statuses_for_def f logs .
  from eff have "(\<exists>f. f \<le> nat (TASK_RETRY_COUNT cfg)
               \<and> access_results ?s' = access_results ?s @ [(node_address n, rows)]
               \<and> map status news = in_processing # replicate f retrying @ [complete]
               \<and> atts = replicate f False @ [True]
               \<and> (\<exists>c'. fst (retrieve n policy (build_input n (published ?s)) c') = Inr rows))
          \<or> (access_results ?s' = access_results ?s \<and> rows = []
               \<and> map status news = in_processing # replicate (nat (TASK_RETRY_COUNT cfg)) retrying @ [error]
               \<and> atts = replicate (Suc (nat (TASK_RETRY_COUNT cfg))) False)"
    by (simp only: access_effect_def)
  then have "rows = []"
  proof
    assume "\<exists>f. f \<le> nat (TASK_RETRY_COUNT cfg)
               \<and> access_results ?s' = access_results ?s @ [(node_address n, rows)]
               \<and> map status news = in_processing # replicate f retrying @ [complete]
               \<and> atts = replicate f False @ [True]
               \<and> (\<exists>c'. fst (retrieve n policy (build_input n (published ?s)) c') = Inr rows)"
    then obtain f where "map status news = in_processing # replicate f retrying @ [complete]"
      by (elim exE conjE)
    with e show ?thesis by auto
  next
    assume "access_results ?s' = access_results ?s \<and> rows = []
               \<and> map status news = in_processing # replicate (nat (TASK_RETRY_COUNT cfg)) retrying @ [error]
               \<and> atts = replicate (Suc (nat (TASK_RETRY_COUNT cfg))) False"
    then show ?thesis by (elim conjE)
  qed
  with pub f(2) b show ?thesis by simp
qed

lemmas engine_example_defs =
  run_access_request_def initial_state_def access_task_def Let_def
  add_log_def record_attempt_def build_input_def
  destination_name_def edge_values_def rows_of_def source_address_def ROOT_ADDRESS_def
  statuses_for_def logs_for_def attempts_for_def count_status_def

lemma always_raises_example: "always_raises example_failing_retrieve"
  by (simp add: always_raises_def example_failing_retrieve_def)

lemma example_flaky_statuses:
  "statuses_for (node_address example_customer_node)
     (task_logs (run_access_request example_flaky_retrieve example_retry_settings
        example_request [] [example_customer_node]
        [(''email'', PStr ''customer-5@example.com'')] 0))
   = [in_processing, retrying, complete]
  \<and> attempts_for (node_address example_customer_node)
     (task_attempts (run_access_request example_flaky_retrieve example_retry_settings
        example_request [] [example_customer_node]
        [(''email'', PStr ''customer-5@example.com'')] 0))
   = [False, True]"
  by (simp add: engine_example_defs example_retry_settings_def example_flaky_retrieve_def
      example_customer_node_def example_request_def numeral_2_eq_2)

lemma access_effect_outcome:
  assumes "access_effect retrieve policy node k s s' news atts rows"
  shows "(\<exists>f. map status news = in_processing # replicate f retrying @ [complete]
            \<and> access_results s' = access_results s @ [(node_address node, rows)]
            \<and> (\<exists>c. fst (retrieve node policy (build_input node (published s)) c) = Inr rows))
       \<or> (map status news = in_processing # replicate k retrying @ [error]
            \<and> access_results s' = access_results s \<and> rows = [])"
proof -
  from assms have "(\<exists>f. f \<le> k
               \<and> access_results s' = access_results s @ [(node_address node, rows)]
               \<and> map status news = in_processing # replicate f retrying @ [complete]
               \<and> atts = replicate f False @ [True]
               \<and> (\<exists>c. fst (retrieve node policy (build_input node (published s)) c) = Inr rows))
          \<or> (access_results s' = access_results s \<and> rows = []
               \<and> map status news = in_processing # replicate k retrying @ [error]
               \<and> atts = replicate (Suc k) False)"
    by (simp only: access_effect_def)
  then show ?thesis
  proof
    assume "\<exists>f. f \<le> k
               \<and> access_results s' = access_results s @ [(node_address node, rows)]
               \<and> map status news = in_processing # replicate f retrying @ [complete]
               \<and> atts = replicate f False @ [True]
               \<and> (\<exists>c. fst (retrieve node policy (build_input node (published s)) c) = Inr rows)"
    then obtain f where f: "f \<le> k
               \<and> access_results s' = access_results s @ [(node_address node, rows)]
               \<and> map status news = in_processing # replicate f retrying @ [complete]
               \<and> atts = replicate f False @ [True]
               \<and> (\<exists>c. fst (retrieve node policy (build_input node (published s)) c) = Inr rows)"
      ..
    have "map status news = in_processing # replicate f retrying @ [complete]
            \<and> access_results s' = access_results s @ [(node_address node, rows)]
            \<and> (\<exists>c. fst (retrieve node policy (build_input node (published s)) c) = Inr rows)"
      using f by (intro conjI) (elim conjE, assumption)+
    then show ?thesis by (intro disjI1 exI [of _ f])
  next
    assume a: "access_results s' = access_results s \<and> rows = []
               \<and> map status news = in_processing # replicate k retrying @ [error]
               \<and> atts = replicate (Suc k) False"
    have "map status news = in_processing # replicate k retrying @ [error]
            \<and> access_results s' = access_results s \<and> rows = []"
      using a by (intro conjI) (elim conjE, assumption)+
    then show ?thesis by (rule disjI2)
  qed
qed

lemma always_raises_access_task:
  assumes "always_raises retrieve"
  shows "access_results (access_task retrieve cfg request policy node s) = access_results s"
proof -
  let ?s' = "access_task retrieve cfg request policy node s"
  from access_task_effect [of retrieve policy node cfg s request]
  obtain news atts rows where
    eff: "access_effect retrieve policy node (nat (TASK_RETRY_COUNT cfg)) s ?s' news atts rows"
    by blast
  from access_effect_outcome [OF eff]
  have "(\<exists>c. fst (retrieve node policy (build_input node (published s)) c) = Inr rows)
      \<or> access_results ?s' = access_results s"
    by auto
  then show ?thesis
  proof
    assume "\<exists>c. fst (retrieve node policy (build_input node (published s)) c) = Inr rows"
    then obtain c' where r: "fst (retrieve node policy (build_input node (published s)) c') = Inr rows"
      ..
    from assms obtain e where
      "fst (retrieve node policy (build_input node (published s)) c') = Inl e"
      unfolding always_raises_def by blast
    with r show ?thesis by simp
  qed
qed

lemma always_raises_access_tasks:
  "always_raises retrieve \<Longrightarrow>
     access_results (run_access_tasks retrieve cfg request policy nodes s) = access_results s"
  by (induction nodes arbitrary: s) (simp_all add: always_raises_access_task)

lemma always_raises_no_results:
  "always_raises retrieve \<Longrightarrow>
     access_results (run_access_request retrieve cfg request policy order seed c) = []"
  by (simp add: run_access_request_def always_raises_access_tasks initial_state_def)

text \<open>what a node of the run ended with\<close>

lemma node_terminal:
  assumes n: "n \<in> set order" and d: "distinct (map node_address order)"
    and root: "ROOT_ADDRESS \<notin> node_address ` set order"
  shows "reached_terminal_state (node_address n)
           (run_access_request retrieve cfg request policy order seed c)"
proof -
  let ?a = "node_address n"
  let ?K = "nat (TASK_RETRY_COUNT cfg)"
  let ?fin = "run_access_request retrieve cfg request policy order seed c"
  from root n have nr: "?a \<noteq> ROOT_ADDRESS" by force
  obtain pre post news atts rows where
    eff: "access_effect retrieve policy n ?K
       (run_access_tasks retrieve cfg request policy pre (initial_state c seed []))
       (access_task retrieve cfg request policy n
          (run_access_tasks retrieve cfg request policy pre (initial_state c seed [])))
       news atts rows"
    and v0: "view ?a (run_access_tasks retrieve cfg request policy pre (initial_state c seed []))
       = ([], [], if ?a = ROOT_ADDRESS then Some [seed] else None, None, None)"
    and fin: "view ?a ?fin
       = view ?a (access_task retrieve cfg request policy n
            (run_access_tasks retrieve cfg request policy pre (initial_state c seed [])))"
    using node_effect [OF n d, of retrieve policy cfg request c seed] by metis
  let ?s = "run_access_tasks retrieve cfg request policy pre (initial_state c seed [])"
  let ?s' = "access_task retrieve cfg request policy n ?s"
  from v0 nr have pre: "logs_for ?a (task_logs ?s) = []" "map_of (published ?s) ?a = None"
    by (simp_all add: view_def)
  from fin have f: "logs_for ?a (task_logs ?fin) = logs_for ?a (task_logs ?s')"
    "map_of (published ?fin) ?a = map_of (published ?s') ?a"
    by (simp_all add: view_def)
  from eff have logs: "logs_for ?a (task_logs ?s') = news"
    using pre(1) by (simp add: access_effect_def logs_for_append logs_for_own)
  from eff have pub: "map_of (published ?s') ?a = Some rows"
    using pre(2) by (simp add: access_effect_def map_of_snoc del: map_of_append)
  have st: "statuses_for ?a (task_logs ?fin) = map status news"
    unfolding statuses_for_def f logs ..
  from access_effect_outcome [OF eff]
  have "(\<exists>f. map status news = in_processing # replicate f retrying @ [complete])
      \<or> map status news = in_processing # replicate ?K retrying @ [error]"
    by auto
  then have "map status news \<noteq> []
      \<and> (last (map status news) = complete \<or> last (map status news) = error)"
    by auto
  with st pub f(2) show ?thesis
    by (simp add: reached_terminal_state_def)
qed

lemma errored_no_result:
  assumes n: "n \<in> set order" and d: "distinct (map node_address order)"
    and err: "error \<in> set (statuses_for (node_address n)
        (task_logs (run_access_request retrieve cfg request policy order seed c)))"
  shows "map_of (access_results (run_access_request retrieve cfg request policy order seed c))
           (node_address n) = None"
proof -
  let ?a = "node_address n"
  let ?K = "nat (TASK_RETRY_COUNT cfg)"
  let ?fin = "run_access_request retrieve cfg request policy order seed c"
  from node_outcome [OF n d, where retrieve = retrieve and cfg = cfg
      and request = request and policy = policy and seed = seed and c = c]
  have "(\<exists>f rows. node_completed ?a ?K ?fin f rows) \<or> node_gave_up ?a ?K ?fin"
    by blast
  then show ?thesis
  proof
    assume "\<exists>f rows. node_completed ?a ?K ?fin f rows"
    then obtain f rows where
      "statuses_for ?a (task_logs ?fin) = in_processing # replicate f retrying @ [complete]"
      unfolding node_completed_def by blast
    with err show ?thesis by auto
  next
    assume "node_gave_up ?a ?K ?fin"
    then show ?thesis by (simp add: node_gave_up_def)
  qed
qed

text \<open>the rows an errored node has published at any moment of the run\<close>

lemma errored_rows_before:
  assumes d: "distinct (map node_address order)"
    and root: "ROOT_ADDRESS \<notin> node_address ` set order"
    and o: "order = pre @ post"
    and err: "error \<in> set (statuses_for b
        (task_logs (run_access_request retrieve cfg request policy order seed c)))"
  shows "rows_of (published (run_access_tasks retrieve cfg request policy pre
            (initial_state c seed []))) b = []"
proof (cases "map_of (published (run_access_tasks retrieve cfg request policy pre
            (initial_state c seed []))) b")
  case None
  then show ?thesis by (simp add: rows_of_def)
next
  case (Some r)
  have "run_access_request retrieve cfg request policy order seed c
      = run_access_tasks retrieve cfg request policy post
          (run_access_tasks retrieve cfg request policy pre (initial_state c seed []))"
    by (simp add: run_access_request_def o run_access_tasks_append)
  with published_mono [OF Some, of retrieve cfg request policy post]
  have "map_of (published (run_access_request retrieve cfg request policy order seed c)) b = Some r"
    by simp
  with errored_published [OF d root err] have "r = []" by simp
  with Some show ?thesis by (simp add: rows_of_def)
qed

lemma build_input_no_values:
  assumes "\<And>e. e \<in> set (incoming_edges m) \<Longrightarrow> rows_of pub (source_address e) = []"
  shows "no_usable_input m (build_input m pub)"
proof -
  have ev: "edge_values pub e = []" if "e \<in> set (incoming_edges m)" for e
    using assms [OF that] by (simp add: edge_values_def)
  have c: "concat (map (edge_values pub) (filter P (incoming_edges m))) = []" for P
    by (simp add: ev)
  show ?thesis
    by (simp add: no_usable_input_def build_input_def list_all_iff first_occurrences_Nil c)
qed

lemma fed_only_by_errors_input:
  assumes m: "m \<in> set order" and d: "distinct (map node_address order)"
    and root: "ROOT_ADDRESS \<notin> node_address ` set order"
    and fed: "fed_only_by_errors m (run_access_request retrieve cfg request policy order seed c)"
  shows "(\<exists>input_data.
            map_of (task_inputs (run_access_request retrieve cfg request policy order seed c))
              (node_address m) = Some input_data
            \<and> no_usable_input m input_data)
       \<and> (quiet_without_input retrieve \<longrightarrow>
            map_of (published (run_access_request retrieve cfg request policy order seed c))
              (node_address m) = Some []
            \<and> rows_of (access_results (run_access_request retrieve cfg request policy order seed c))
                (node_address m) = [])"
proof -
  let ?a = "node_address m"
  let ?K = "nat (TASK_RETRY_COUNT cfg)"
  let ?fin = "run_access_request retrieve cfg request policy order seed c"
  from root m have nr: "?a \<noteq> ROOT_ADDRESS" by force
  obtain pre post news atts rows where
    o: "order = pre @ m # post"
    and eff: "access_effect retrieve policy m ?K
       (run_access_tasks retrieve cfg request policy pre (initial_state c seed []))
       (access_task retrieve cfg request policy m
          (run_access_tasks retrieve cfg request policy pre (initial_state c seed [])))
       news atts rows"
    and v0: "view ?a (run_access_tasks retrieve cfg request policy pre (initial_state c seed []))
       = ([], [], if ?a = ROOT_ADDRESS then Some [seed] else None, None, None)"
    and fin: "view ?a ?fin
       = view ?a (access_task retrieve cfg request policy m
            (run_access_tasks retrieve cfg request policy pre (initial_state c seed [])))"
    using node_effect [OF m d, of retrieve policy cfg request c seed] by metis
  let ?s = "run_access_tasks retrieve cfg request policy pre (initial_state c seed [])"
  let ?s' = "access_task retrieve cfg request policy m ?s"
  let ?inp = "build_input m (published ?s)"
  from v0 nr have pre: "map_of (task_inputs ?s) ?a = None" "map_of (published ?s) ?a = None"
    "map_of (access_results ?s) ?a = None"
    by (simp_all add: view_def)
  from fin have f: "map_of (task_inputs ?fin) ?a = map_of (task_inputs ?s') ?a"
    "map_of (published ?fin) ?a = map_of (published ?s') ?a"
    "map_of (access_results ?fin) ?a = map_of (access_results ?s') ?a"
    by (simp_all add: view_def)
  from access_effect_outcome [OF eff]
  have "access_results ?s' = access_results ?s @ [(?a, rows)]
      \<or> access_results ?s' = access_results ?s"
    by auto
  then have res: "rows_of (access_results ?s') ?a = rows \<or> rows_of (access_results ?s') ?a = []"
    using pre(3) by (auto simp: rows_of_def map_of_snoc simp del: map_of_append)
  from eff have inp: "map_of (task_inputs ?s') ?a = Some ?inp"
    using pre(1) by (simp add: access_effect_def map_of_snoc del: map_of_append)
  from eff have pub: "map_of (published ?s') ?a = Some rows"
    using pre(2) by (simp add: access_effect_def map_of_snoc del: map_of_append)
  have nu: "no_usable_input m ?inp"
  proof (rule build_input_no_values)
    fix e assume "e \<in> set (incoming_edges m)"
    with fed have "error \<in> set (statuses_for (source_address e) (task_logs ?fin))"
      by (simp add: fed_only_by_errors_def list_all_iff)
    with d root o show "rows_of (published ?s) (source_address e) = []"
      by (rule errored_rows_before)
  qed
  have q: "rows = []" if quiet: "quiet_without_input retrieve"
  proof -
    from access_effect_outcome [OF eff]
    have "(\<exists>c'. fst (retrieve m policy ?inp c') = Inr rows) \<or> rows = []"
      by auto
    then show ?thesis
    proof
      assume "\<exists>c'. fst (retrieve m policy ?inp c') = Inr rows"
      then obtain c' where "fst (retrieve m policy ?inp c') = Inr rows" ..
      with quiet nu show ?thesis unfolding quiet_without_input_def by blast
    qed
  qed
  from nu inp f(1) have "\<exists>input_data. map_of (task_inputs ?fin) ?a = Some input_data
      \<and> no_usable_input m input_data" by simp
  moreover from q pub f(2) have "quiet_without_input retrieve \<longrightarrow> map_of (published ?fin) ?a = Some []"
    by simp
  moreover from q res f(3) have "quiet_without_input retrieve \<longrightarrow> rows_of (access_results ?fin) ?a = []"
    by (auto simp: rows_of_def)
  ultimately show ?thesis by blast
qed

lemmas engine_run_defs =
  run_access_request_def initial_state_def access_task_def Let_def
  add_log_def record_attempt_def build_input_def first_occurrences_def
  destination_name_def edge_values_def rows_of_def source_address_def ROOT_ADDRESS_def
  no_usable_input_def query_fields_def

lemma example_partial_run:
  "run_access_request example_partial_retrieve example_retry_settings example_request []
     example_order example_seed 0
   = \<lparr>connector_state = 5,
     published =
     [((''__ROOT__'', ''__ROOT__''),
     [[(''email'', PStr ''customer-5@example.com'')]]),
     ((''postgres_example'', ''customer''), []),
     ((''postgres_example'', ''employee''),
     [[(''id'', PInt 7), (''address_id'', PInt 7)]]),
     ((''postgres_example'', ''address''),
     [[(''id'', PInt 7), (''address_id'', PInt 7)]]),
     ((''postgres_example'', ''orders''), [])],
     access_results =
     [((''postgres_example'', ''employee''),
     [[(''id'', PInt 7), (''address_id'', PInt 7)]]),
     ((''postgres_example'', ''address''),
     [[(''id'', PInt 7), (''address_id'', PInt 7)]]),
     ((''postgres_example'', ''orders''), [])],
     erasure_results = [],
     task_inputs =
     [((''postgres_example'', ''customer''),
     [(''email'', PList [PStr ''customer-5@example.com''])]),
     ((''postgres_example'', ''employee''),
     [(''email'', PList [PStr ''customer-5@example.com''])]),
     ((''postgres_example'', ''address''), [(''id'', PList [PInt 7])]),
     ((''postgres_example'', ''orders''), [(''customer_id'', PList [])])],
     task_attempts =
     [((''postgres_example'', ''customer''), False),
     ((''postgres_example'', ''customer''), False),
     ((''postgres_example'', ''employee''), True),
     ((''postgres_example'', ''address''), True),
     ((''postgres_example'', ''orders''), True)],
     task_logs =
     [\<lparr>privacy_request_id = ''pri_1'', dataset_name = ''postgres_example'',
     collection_name = ''customer'', action_type = access,
     status = in_processing, message = None, updated_at = 0\<rparr>,
     \<lparr>privacy_request_id = ''pri_1'', dataset_name = ''postgres_example'',
     collection_name = ''customer'', action_type = access,
     status = retrying, message = None, updated_at = 1\<rparr>,
     \<lparr>privacy_request_id = ''pri_1'', dataset_name = ''postgres_example'',
     collection_name = ''customer'', action_type = access,
     status = error, message = Some ''OperationalError'',
     updated_at = 2\<rparr>,
     \<lparr>privacy_request_id = ''pri_1'', dataset_name = ''postgres_example'',
     collection_name = ''employee'', action_type = access,
     status = in_processing, message = None, updated_at = 3\<rparr>,
     \<lparr>privacy_request_id = ''pri_1'', dataset_name = ''postgres_example'',
     collection_name = ''employee'', action_type = access,
     status = complete, message = None, updated_at = 4\<rparr>,
     \<lparr>privacy_request_id = ''pri_1'', dataset_name = ''postgres_example'',
     collection_name = ''address'', action_type = access,
     status = in_processing, message = None, updated_at = 5\<rparr>,
     \<lparr>privacy_request_id = ''pri_1'', dataset_name = ''postgres_example'',
     collection_name = ''address'', action_type = access,
     status = complete, message = None, updated_at = 6\<rparr>,
     \<lparr>privacy_request_id = ''pri_1'', dataset_name = ''postgres_example'',
     collection_name = ''orders'', action_type = access,
     status = in_processing, message = None, updated_at = 7\<rparr>,
     \<lparr>privacy_request_id = ''pri_1'', dataset_name = ''postgres_example'',
     collection_name = ''orders'', action_type = access,
     status = complete, message = None, updated_at = 8\<rparr>]\<rparr>"
  by (simp add: engine_run_defs example_order_def example_seed_def example_request_def
      example_retry_settings_def example_partial_retrieve_def
      example_graph_customer_def example_graph_employee_def example_graph_address_def
      example_graph_orders_def)

lemma example_failing_run:
  "run_access_request example_failing_retrieve example_retry_settings example_request []
     example_order example_seed 0
   = \<lparr>connector_state = 8,
     published =
     [((''__ROOT__'', ''__ROOT__''),
     [[(''email'', PStr ''customer-5@example.com'')]]),
     ((''postgres_example'', ''customer''), []),
     ((''postgres_example'', ''employee''), []),
     ((''postgres_example'', ''address''), []),
     ((''postgres_example'', ''orders''), [])],
     access_results = [], erasure_results = [],
     task_inputs =
     [((''postgres_example'', ''customer''),
     [(''email'', PList [PStr ''customer-5@example.com''])]),
     ((''postgres_example'', ''employee''),
     [(''email'', PList [PStr ''customer-5@example.com''])]),
     ((''postgres_example'', ''address''), [(''id'', PList [])]),
     ((''postgres_example'', ''orders''), [(''customer_id'', PList [])])],
     task_attempts =
     [((''postgres_example'', ''customer''), False),
     ((''postgres_example'', ''customer''), False),
     ((''postgres_example'', ''employee''), False),
     ((''postgres_example'', ''employee''), False),
     ((''postgres_example'', ''address''), False),
     ((''postgres_example'', ''address''), False),
     ((''postgres_example'', ''orders''), False),
     ((''postgres_example'', ''orders''), False)],
     task_logs =
     [\<lparr>privacy_request_id = ''pri_1'', dataset_name = ''postgres_example'',
     collection_name = ''customer'', action_type = access,
     status = in_processing, message = None, updated_at = 0\<rparr>,
     \<lparr>privacy_request_id = ''pri_1'', dataset_name = ''postgres_example'',
     collection_name = ''customer'', action_type = access,
     status = retrying, message = None, updated_at = 1\<rparr>,
     \<lparr>privacy_request_id = ''pri_1'', dataset_name = ''postgres_example'',
     collection_name = ''customer'', action_type = access,
     status = error, message = Some ''OperationalError'',
     updated_at = 2\<rparr>,
     \<lparr>privacy_request_id = ''pri_1'', dataset_name = ''postgres_example'',
     collection_name = ''employee'', action_type = access,
     status = in_processing, message = None, updated_at = 3\<rparr>,
     \<lparr>privacy_request_id = ''pri_1'', dataset_name = ''postgres_example'',
     collection_name = ''employee'', action_type = access,
     status = retrying, message = None, updated_at = 4\<rparr>,
     \<lparr>privacy_request_id = ''pri_1'', dataset_name = ''postgres_example'',
     collection_name = ''employee'', action_type = access,
     status = error, message = Some ''OperationalError'',
     updated_at = 5\<rparr>,
     \<lparr>privacy_request_id = ''pri_1'', dataset_name = ''postgres_example'',
     collection_name = ''address'', action_type = access,
     status = in_processing, message = None, updated_at = 6\<rparr>,
     \<lparr>privacy_request_id = ''pri_1'', dataset_name = ''postgres_example'',
     collection_name = ''address'', action_type = access,
     status = retrying, message = None, updated_at = 7\<rparr>,
     \<lparr>privacy_request_id = ''pri_1'', dataset_name = ''postgres_example'',
     collection_name = ''address'', action_type = access,
     status = error, message = Some ''OperationalError'',
     updated_at = 8\<rparr>,
     \<lparr>privacy_request_id = ''pri_1'', dataset_name = ''postgres_example'',
     collection_name = ''orders'', action_type = access,
     status = in_processing, message = None, updated_at = 9\<rparr>,
     \<lparr>privacy_request_id = ''pri_1'', dataset_name = ''postgres_example'',
     collection_name = ''orders'', action_type = access,
     status = retrying, message = None, updated_at = 10\<rparr>,
     \<lparr>privacy_request_id = ''pri_1'', dataset_name = ''postgres_example'',
     collection_name = ''orders'', action_type = access,
     status = error, message = Some ''OperationalError'',
     updated_at = 11\<rparr>]\<rparr>"
  by (simp add: engine_run_defs example_order_def example_seed_def example_request_def
      example_retry_settings_def example_failing_retrieve_def
      example_graph_customer_def example_graph_employee_def example_graph_address_def
      example_graph_orders_def)

lemma example_order_addresses:
  "distinct (map node_address example_order)"
  "ROOT_ADDRESS \<notin> node_address ` set example_order"
  by (simp_all add: example_order_def ROOT_ADDRESS_def example_graph_customer_def
      example_graph_employee_def example_graph_address_def example_graph_orders_def)

lemma quiet_example_partial: "quiet_without_input example_partial_retrieve"
  by (simp add: quiet_without_input_def example_partial_retrieve_def)

lemma example_orders_fed_by_errors:
  "fed_only_by_errors example_graph_orders
     (run_access_request example_partial_retrieve example_retry_settings example_request []
        example_order example_seed 0)"
  by (simp add: example_partial_run fed_only_by_errors_def example_graph_orders_def
      source_address_def statuses_for_def logs_for_def)

lemma example_customer_errored:
  "statuses_for (node_address example_graph_customer)
     (task_logs (run_access_request example_partial_retrieve example_retry_settings
        example_request [] example_order example_seed 0))
   = [in_processing, retrying, error]"
  by (simp add: example_partial_run example_graph_customer_def statuses_for_def logs_for_def)

lemma logs_for_not_own: "list_all (own_log a) news \<Longrightarrow> a \<noteq> b \<Longrightarrow> logs_for b news = []"
  by (induction news) (auto simp: logs_for_def own_log_def prod_eq_iff)

lemma node_log_own: "list_all (node_log node) news \<Longrightarrow> list_all (own_log (node_address node)) news"
  by (induction news) (auto simp: node_log_def own_log_def)

lemma erasure_task_no_primary_key:
  assumes "\<not> list_ex primary_key (node_fields node)"
  shows "\<exists>l1 l2.
      task_logs (erasure_task masker cfg request policy access_request_data node s)
        = task_logs s @ [l1, l2]
      \<and> own_log (node_address node) l1 \<and> own_log (node_address node) l2
      \<and> status l1 = in_processing \<and> message l1 = None
      \<and> status l2 = complete \<and> message l2 = Some NO_PRIMARY_KEY_MESSAGE
      \<and> action_type l1 = erasure \<and> action_type l2 = erasure"
    and "task_attempts (erasure_task masker cfg request policy access_request_data node s)
        = task_attempts s"
    and "erasure_results (erasure_task masker cfg request policy access_request_data node s)
        = erasure_results s @ [(node_address node, 0)]"
    and "connector_state (erasure_task masker cfg request policy access_request_data node s)
        = connector_state s"
  using assms by (simp_all add: erasure_task_def Let_def add_log_def own_log_def)

lemma erasure_task_shape:
  "\<exists>news atts cnt.
     task_logs (erasure_task masker cfg request policy access_request_data node s)
       = task_logs s @ news
     \<and> list_all (own_log (node_address node)) news
     \<and> task_attempts (erasure_task masker cfg request policy access_request_data node s)
         = task_attempts s @ map (Pair (node_address node)) atts
     \<and> erasure_results (erasure_task masker cfg request policy access_request_data node s)
         = erasure_results s @ [(node_address node, cnt)]"
proof (cases "list_ex primary_key (node_fields node)")
  case False
  from erasure_task_no_primary_key [OF False, of masker cfg request policy access_request_data s]
  obtain l1 l2 where
    "task_logs (erasure_task masker cfg request policy access_request_data node s)
        = task_logs s @ [l1, l2]"
    "list_all (own_log (node_address node)) [l1, l2]"
    "task_attempts (erasure_task masker cfg request policy access_request_data node s)
        = task_attempts s @ map (Pair (node_address node)) []"
    "erasure_results (erasure_task masker cfg request policy access_request_data node s)
        = erasure_results s @ [(node_address node, 0)]"
    by auto
  then show ?thesis by blast
next
  case True
  let ?K = "nat (TASK_RETRY_COUNT cfg)"
  let ?s1 = "add_log request node erasure in_processing None s"
  let ?call = "masker node policy request (rows_of access_request_data (node_address node))"
  from add_log_logs [of request node erasure in_processing None s]
  obtain l where l: "task_logs ?s1 = task_logs s @ [l]"
    "dataset_name l = fst (node_address node)" "collection_name l = snd (node_address node)"
    by auto
  obtain r s2 where run: "run_with_retries request node erasure ?call ?K ?s1 = (r, s2)"
    by (cases "run_with_retries request node erasure ?call ?K ?s1")
  from run_with_retries_trace [OF run] obtain news atts where
    t: "retry_trace node ?K ?s1 r s2 news atts"
    by blast
  then have base: "task_logs s2 = task_logs s @ l # news"
    "task_attempts s2 = task_attempts s @ map (Pair (node_address node)) atts"
    "erasure_results s2 = erasure_results s"
    "list_all (own_log (node_address node)) (l # news)"
    using l by (simp_all add: retry_trace_def node_log_own own_log_def)
  obtain cnt where "erasure_task masker cfg request policy access_request_data node s
      = s2\<lparr>erasure_results := erasure_results s2 @ [(node_address node, cnt)]\<rparr>"
    using True run by (cases r) (simp_all add: erasure_task_def Let_def)
  with base have
    "task_logs (erasure_task masker cfg request policy access_request_data node s)
       = task_logs s @ l # news
     \<and> list_all (own_log (node_address node)) (l # news)
     \<and> task_attempts (erasure_task masker cfg request policy access_request_data node s)
         = task_attempts s @ map (Pair (node_address node)) atts
     \<and> erasure_results (erasure_task masker cfg request policy access_request_data node s)
         = erasure_results s @ [(node_address node, cnt)]"
    by simp
  then show ?thesis by blast
qed

lemma erasure_task_frame:
  assumes "node_address node \<noteq> b"
  shows "erasure_view b (erasure_task masker cfg request policy access_request_data node s)
       = erasure_view b s"
proof -
  from erasure_task_shape [of masker cfg request policy access_request_data node s]
  obtain news atts cnt where
    "task_logs (erasure_task masker cfg request policy access_request_data node s)
       = task_logs s @ news"
    "list_all (own_log (node_address node)) news"
    "task_attempts (erasure_task masker cfg request policy access_request_data node s)
         = task_attempts s @ map (Pair (node_address node)) atts"
    "erasure_results (erasure_task masker cfg request policy access_request_data node s)
         = erasure_results s @ [(node_address node, cnt)]"
    by blast
  with assms show ?thesis
    by (simp add: erasure_view_def logs_for_append logs_for_not_own attempts_for_append
        attempts_for_Pair map_of_snoc_other del: map_of_append)
qed

lemma run_erasure_tasks_frame:
  "b \<notin> node_address ` set nodes \<Longrightarrow>
     erasure_view b (run_erasure_tasks masker cfg request policy access_request_data nodes s)
       = erasure_view b s"
  by (induction nodes arbitrary: s) (auto simp: erasure_task_frame)

lemma run_erasure_tasks_append:
  "run_erasure_tasks masker cfg request policy access_request_data (xs @ ys) s =
     run_erasure_tasks masker cfg request policy access_request_data ys
       (run_erasure_tasks masker cfg request policy access_request_data xs s)"
  by (induction xs arbitrary: s) auto

lemma no_primary_key_logs_append:
  "no_primary_key_logs a (xs @ ys) = no_primary_key_logs a xs @ no_primary_key_logs a ys"
  by (simp add: no_primary_key_logs_def logs_for_append)

lemma no_primary_key_logs_node_log:
  "list_all (node_log node) news \<Longrightarrow> no_primary_key_logs a news = []"
  by (induction news) (auto simp: no_primary_key_logs_def logs_for_def node_log_def)

lemma access_task_no_primary_key_logs:
  "no_primary_key_logs a (task_logs (access_task retrieve cfg request policy node s))
     = no_primary_key_logs a (task_logs s)"
proof -
  from access_task_effect [of retrieve policy node cfg s request]
  obtain news atts rows where
    eff: "access_effect retrieve policy node (nat (TASK_RETRY_COUNT cfg)) s
        (access_task retrieve cfg request policy node s) news atts rows" by blast
  then have "task_logs (access_task retrieve cfg request policy node s) = task_logs s @ news"
    "list_all (node_log node) news"
    by (simp_all only: access_effect_def)
  then show ?thesis
    by (simp add: no_primary_key_logs_append no_primary_key_logs_node_log)
qed

lemma access_run_no_primary_key_logs:
  "no_primary_key_logs a (task_logs (run_access_tasks retrieve cfg request policy nodes s))
     = no_primary_key_logs a (task_logs s)"
  by (induction nodes arbitrary: s) (simp_all add: access_task_no_primary_key_logs)

lemma access_request_no_primary_key_logs:
  "no_primary_key_logs a (task_logs (run_access_request retrieve cfg request policy order seed c))
     = []"
proof -
  have "no_primary_key_logs a (task_logs (initial_state c seed [])) = []"
    by (simp add: initial_state_def no_primary_key_logs_def logs_for_def)
  then show ?thesis
    by (simp only: run_access_request_def access_run_no_primary_key_logs)
qed

lemma example_erasure_results:
  "erasure_results (run_erasure example_sql_masker example_retry_settings example_request
      example_erasure_policy_all [example_customer_node, example_erasure_address_node]
      example_seed example_access_data [] example_connector)
   = [((''postgres_example_test_dataset'', ''customer''), 1),
      ((''postgres_example_test_dataset'', ''address''), 0)]"
  by (simp add: run_erasure_def initial_state_def erasure_task_def Let_def add_log_def
      record_attempt_def rows_of_def example_sql_masker_def example_retry_settings_def
      example_request_def example_erasure_policy_all_def example_customer_node_def
      example_erasure_address_node_def example_access_data_def example_connector_def
      example_exec_def mask_data_def spec_query_config_def spec_generate_update_stmt_def
      primary_key_values_def masked_values_def erasure_rule_for_def field_matches_def
      category_matches_def connection_execute_def client_def List.map_filter_simps)

lemma run_with_retries_actions:
  "run_with_retries request node act call k s = (r, s') \<Longrightarrow>
     \<exists>news. task_logs s' = task_logs s @ news \<and> list_all (\<lambda>l. action_type l = act) news"
proof (induction k arbitrary: s)
  case 0
  obtain res c where call: "call (connector_state s) = (res, c)"
    by (cases "call (connector_state s)")
  with 0 show ?case
    by (cases res) (auto simp: add_log_def)
next
  case (Suc k)
  obtain res c where call: "call (connector_state s) = (res, c)"
    by (cases "call (connector_state s)")
  show ?case
  proof (cases res)
    case (Inr x)
    with Suc.prems call show ?thesis by (auto simp: add_log_def)
  next
    case (Inl e)
    let ?s2 = "add_log request node act retrying None (record_attempt node False c s)"
    from Suc.prems call Inl have "run_with_retries request node act call k ?s2 = (r, s')"
      by simp
    from Suc.IH [OF this] obtain news where
      "task_logs s' = task_logs ?s2 @ news" "list_all (\<lambda>l. action_type l = act) news"
      by blast
    moreover from add_log_logs [of request node act retrying None "record_attempt node False c s"]
    obtain l where "task_logs ?s2 = task_logs s @ [l]" "action_type l = act"
      by auto
    ultimately have "task_logs s' = task_logs s @ (l # news)
        \<and> list_all (\<lambda>l. action_type l = act) (l # news)"
      by simp
    then show ?thesis by blast
  qed
qed

lemma erasure_task_effect:
  "\<exists>news atts cnt.
     erasure_effect masker policy request access_request_data node (nat (TASK_RETRY_COUNT cfg)) s
       (erasure_task masker cfg request policy access_request_data node s) news atts cnt"
proof (cases "list_ex primary_key (node_fields node)")
  case False
  from erasure_task_no_primary_key [OF False, of masker cfg request policy access_request_data s]
  obtain l1 l2 where
    "task_logs (erasure_task masker cfg request policy access_request_data node s)
        = task_logs s @ [l1, l2]"
    "own_log (node_address node) l1" "own_log (node_address node) l2"
    "status l1 = in_processing" "status l2 = complete"
    "action_type l1 = erasure" "action_type l2 = erasure"
    and "task_attempts (erasure_task masker cfg request policy access_request_data node s)
        = task_attempts s"
    and "erasure_results (erasure_task masker cfg request policy access_request_data node s)
        = erasure_results s @ [(node_address node, 0)]"
    by blast
  with False have "erasure_effect masker policy request access_request_data node
      (nat (TASK_RETRY_COUNT cfg)) s
      (erasure_task masker cfg request policy access_request_data node s) [l1, l2] [] 0"
    by (simp add: erasure_effect_def)
  then show ?thesis by blast
next
  case True
  let ?K = "nat (TASK_RETRY_COUNT cfg)"
  let ?s1 = "add_log request node erasure in_processing None s"
  let ?call = "masker node policy request (rows_of access_request_data (node_address node))"
  let ?s' = "erasure_task masker cfg request policy access_request_data node s"
  from add_log_logs [of request node erasure in_processing None s]
  obtain l where l: "task_logs ?s1 = task_logs s @ [l]" "status l = in_processing"
    "action_type l = erasure"
    "dataset_name l = fst (node_address node)" "collection_name l = snd (node_address node)"
    by auto
  obtain r s2 where run: "run_with_retries request node erasure ?call ?K ?s1 = (r, s2)"
    by (cases "run_with_retries request node erasure ?call ?K ?s1")
  from run_with_retries_trace [OF run] obtain news atts where
    t: "retry_trace node ?K ?s1 r s2 news atts"
    by blast
  from run_with_retries_actions [OF run] obtain news' where
    "task_logs s2 = task_logs ?s1 @ news'" "list_all (\<lambda>l. action_type l = erasure) news'"
    by blast
  with t have act: "list_all (\<lambda>l. action_type l = erasure) news"
    by (simp add: retry_trace_def)
  from t have base: "task_logs s2 = task_logs s @ l # news"
    "task_attempts s2 = task_attempts s @ map (Pair (node_address node)) atts"
    "erasure_results s2 = erasure_results s"
    "list_all (own_log (node_address node)) (l # news)"
    using l by (simp_all add: retry_trace_def node_log_own own_log_def)
  from act l(3) have act': "list_all (\<lambda>l. action_type l = erasure) (l # news)" by simp
  from t have out: "(\<exists>f. r \<noteq> None \<and> f \<le> ?K \<and> atts = replicate f False @ [True]
               \<and> map status news = replicate f retrying @ [complete])
          \<or> (r = None \<and> atts = replicate (Suc ?K) False
               \<and> map status news = replicate ?K retrying @ [error])"
    by (simp add: retry_trace_def)
  show ?thesis
  proof (cases r)
    case None
    then have s': "?s' = s2\<lparr>erasure_results := erasure_results s2 @ [(node_address node, 0)]\<rparr>"
      using True run by (simp add: erasure_task_def Let_def)
    from out None have o: "atts = replicate (Suc ?K) False"
      "map status news = replicate ?K retrying @ [error]"
      by auto
    have "erasure_effect masker policy request access_request_data node ?K s ?s' (l # news) atts 0"
      unfolding erasure_effect_def s'
      using True base act' o l(2) by simp
    then show ?thesis by blast
  next
    case (Some cnt)
    then have s': "?s' = s2\<lparr>erasure_results := erasure_results s2 @ [(node_address node, cnt)]\<rparr>"
      using True run by (simp add: erasure_task_def Let_def)
    from run Some have v: "\<exists>c. fst (?call c) = Inr cnt"
      by (auto dest: run_with_retries_value)
    from out Some obtain f where o: "f \<le> ?K" "atts = replicate f False @ [True]"
      "map status news = replicate f retrying @ [complete]"
      by auto
    have "(\<exists>f. f \<le> ?K
               \<and> map status (l # news) = in_processing # replicate f retrying @ [complete]
               \<and> atts = replicate f False @ [True]
               \<and> (\<exists>c. fst (?call c) = Inr cnt))"
      using o v l(2) by (intro exI [of _ f]) simp
    then have "erasure_effect masker policy request access_request_data node ?K s ?s' (l # news) atts cnt"
      unfolding erasure_effect_def s'
      using True base act' by simp
    then show ?thesis by blast
  qed
qed

text \<open>what the erasure run holds for a node\<close>

lemma erasure_node_effect:
  assumes n: "n \<in> set order" and d: "distinct (map node_address order)"
    and prev: "action_statuses_for erasure (node_address n) previous_logs = []"
  shows "\<exists>s s' news atts cnt.
      erasure_effect masker policy request access_request_data n (nat (TASK_RETRY_COUNT cfg))
        s s' news atts cnt
      \<and> action_statuses_for erasure (node_address n) (task_logs
            (run_erasure masker cfg request policy order seed access_request_data
               previous_logs c)) = map status news
      \<and> attempts_for (node_address n) (task_attempts
            (run_erasure masker cfg request policy order seed access_request_data
               previous_logs c)) = atts"
proof -
  let ?a = "node_address n"
  let ?fin = "run_erasure masker cfg request policy order seed access_request_data previous_logs c"
  from n obtain pre post where o: "order = pre @ n # post"
    by (auto simp: in_set_conv_decomp)
  with d have a: "?a \<notin> node_address ` set pre" "?a \<notin> node_address ` set post"
    by auto
  let ?s = "run_erasure_tasks masker cfg request policy access_request_data pre
      (initial_state c seed previous_logs)"
  let ?s' = "erasure_task masker cfg request policy access_request_data n ?s"
  have v0: "erasure_view ?a ?s = (logs_for ?a previous_logs, [], None)"
    using run_erasure_tasks_frame [OF a(1), of masker cfg request policy access_request_data
        "initial_state c seed previous_logs"]
    by (simp add: erasure_view_def initial_state_def attempts_for_def)
  have fin: "erasure_view ?a ?fin = erasure_view ?a ?s'"
    unfolding run_erasure_def o run_erasure_tasks_append
    by (simp add: run_erasure_tasks_frame [OF a(2)])
  from erasure_task_effect [of masker policy request access_request_data n cfg ?s]
  obtain news atts cnt where
    eff: "erasure_effect masker policy request access_request_data n (nat (TASK_RETRY_COUNT cfg))
        ?s ?s' news atts cnt"
    by blast
  then have e: "task_logs ?s' = task_logs ?s @ news"
    "task_attempts ?s' = task_attempts ?s @ map (Pair ?a) atts"
    "list_all (own_log ?a) news" "list_all (\<lambda>l. action_type l = erasure) news"
    by (simp_all only: erasure_effect_def)
  from v0 have pre: "logs_for ?a (task_logs ?s) = logs_for ?a previous_logs"
    "attempts_for ?a (task_attempts ?s) = []"
    by (simp_all add: erasure_view_def)
  from fin have f: "logs_for ?a (task_logs ?fin) = logs_for ?a (task_logs ?s')"
    "attempts_for ?a (task_attempts ?fin) = attempts_for ?a (task_attempts ?s')"
    by (simp_all add: erasure_view_def)
  have own: "logs_for ?a news = news"
    using e(3) by (induction news) (auto simp: logs_for_def own_log_def)
  have flt: "filter (\<lambda>l. action_type l = erasure) news = news"
    using e(4) by (induction news) auto
  have "action_statuses_for erasure ?a (task_logs ?fin) = map status news"
    using prev unfolding action_statuses_for_def f e(1) logs_for_append pre(1)
    by (simp add: own flt)
  moreover have "attempts_for ?a (task_attempts ?fin) = atts"
    unfolding f e(2) attempts_for_append pre(2) by (simp add: attempts_for_Pair)
  ultimately show ?thesis using eff by blast
qed

lemma access_retry_bound:
  assumes "n \<in> set order" and "distinct (map node_address order)"
    and "0 \<le> TASK_RETRY_COUNT cfg"
  shows "int (count_status retrying
            (statuses_for (node_address n)
               (task_logs (run_access_request retrieve cfg request policy order seed c))))
           \<le> TASK_RETRY_COUNT cfg
       \<and> (error \<in> set (statuses_for (node_address n)
               (task_logs (run_access_request retrieve cfg request policy order seed c)))
            \<longleftrightarrow> attempts_for (node_address n)
                  (task_attempts (run_access_request retrieve cfg request policy order seed c))
                = replicate (nat (TASK_RETRY_COUNT cfg) + 1) False)
       \<and> (always_raises retrieve \<and> TASK_RETRY_COUNT cfg = 1 \<longrightarrow>
            statuses_for (node_address n)
               (task_logs (run_access_request retrieve cfg request policy order seed c))
              = [in_processing, retrying, error])"
proof -
  let ?a = "node_address n"
  let ?K = "nat (TASK_RETRY_COUNT cfg)"
  let ?fin = "run_access_request retrieve cfg request policy order seed c"
  from node_outcome [OF assms(1,2), where retrieve = retrieve and cfg = cfg
      and request = request and policy = policy and seed = seed and c = c]
  consider (ok) f rows where "node_completed ?a ?K ?fin f rows"
      "\<exists>input_data c'. fst (retrieve n policy input_data c') = Inr rows"
    | (bad) "node_gave_up ?a ?K ?fin"
    by blast
  then show ?thesis
  proof cases
    case ok
    then have st: "statuses_for ?a (task_logs ?fin) = in_processing # replicate f retrying @ [complete]"
      and at: "attempts_for ?a (task_attempts ?fin) = replicate f False @ [True]"
      and f: "f \<le> ?K"
      by (simp_all add: node_completed_def)
    have 1: "int (count_status retrying (statuses_for ?a (task_logs ?fin))) \<le> TASK_RETRY_COUNT cfg"
      unfolding st count_retrying_completed using f assms(3) by linarith
    have 2: "error \<notin> set (statuses_for ?a (task_logs ?fin))"
      unfolding st by auto
    have "True \<in> set (attempts_for ?a (task_attempts ?fin))" unfolding at by simp
    have 3: "attempts_for ?a (task_attempts ?fin) \<noteq> replicate (?K + 1) False"
    proof
      assume "attempts_for ?a (task_attempts ?fin) = replicate (?K + 1) False"
      with \<open>True \<in> set (attempts_for ?a (task_attempts ?fin))\<close>
      have "True \<in> set (replicate (?K + 1) False)" by simp
      then show False by simp
    qed
    have 4: "\<not> always_raises retrieve"
    proof
      assume ar: "always_raises retrieve"
      from ok(2) obtain input_data c' where r: "fst (retrieve n policy input_data c') = Inr rows"
        by blast
      from ar obtain e where "fst (retrieve n policy input_data c') = Inl e"
        unfolding always_raises_def by blast
      with r show False by simp
    qed
    from 1 2 3 4 show ?thesis by simp
  next
    case bad
    then have st: "statuses_for ?a (task_logs ?fin) = in_processing # replicate ?K retrying @ [error]"
      and at: "attempts_for ?a (task_attempts ?fin) = replicate (Suc ?K) False"
      by (simp_all add: node_gave_up_def)
    have 1: "int (count_status retrying (statuses_for ?a (task_logs ?fin))) \<le> TASK_RETRY_COUNT cfg"
      unfolding st count_retrying_gave_up using assms(3) by simp
    have 2: "error \<in> set (statuses_for ?a (task_logs ?fin))"
      unfolding st by simp
    have 3: "TASK_RETRY_COUNT cfg = 1 \<Longrightarrow> statuses_for ?a (task_logs ?fin) = [in_processing, retrying, error]"
      unfolding st by simp
    from 1 2 3 at show ?thesis by simp
  qed
qed

lemma erasure_retry_bound:
  assumes n: "n \<in> set order" and d: "distinct (map node_address order)"
    and k: "0 \<le> TASK_RETRY_COUNT cfg"
    and prev: "action_statuses_for erasure (node_address n) previous_logs = []"
  shows "int (count_status retrying
            (action_statuses_for erasure (node_address n)
               (task_logs (run_erasure masker cfg request policy order seed
                  access_request_data previous_logs c))))
           \<le> TASK_RETRY_COUNT cfg
       \<and> (error \<in> set (action_statuses_for erasure (node_address n)
               (task_logs (run_erasure masker cfg request policy order seed
                  access_request_data previous_logs c)))
            \<longleftrightarrow> attempts_for (node_address n)
                  (task_attempts (run_erasure masker cfg request policy order seed
                     access_request_data previous_logs c))
                = replicate (nat (TASK_RETRY_COUNT cfg) + 1) False)
       \<and> (list_ex primary_key (node_fields n) \<and> mask_always_raises masker
              \<and> TASK_RETRY_COUNT cfg = 1 \<longrightarrow>
            action_statuses_for erasure (node_address n)
               (task_logs (run_erasure masker cfg request policy order seed
                  access_request_data previous_logs c))
              = [in_processing, retrying, error])
       \<and> (\<not> list_ex primary_key (node_fields n) \<longrightarrow>
            action_statuses_for erasure (node_address n)
               (task_logs (run_erasure masker cfg request policy order seed
                  access_request_data previous_logs c))
              = [in_processing, complete])"
proof -
  let ?a = "node_address n"
  let ?K = "nat (TASK_RETRY_COUNT cfg)"
  let ?fin = "run_erasure masker cfg request policy order seed access_request_data previous_logs c"
  let ?st = "action_statuses_for erasure ?a (task_logs ?fin)"
  let ?at = "attempts_for ?a (task_attempts ?fin)"
  from erasure_node_effect [OF n d prev, of masker policy request access_request_data cfg seed c]
  obtain s s' news atts cnt where
    eff: "erasure_effect masker policy request access_request_data n ?K s s' news atts cnt"
    and st: "?st = map status news" and at: "?at = atts"
    by blast
  from eff have branch: "if list_ex primary_key (node_fields n) then
            (\<exists>f. f \<le> ?K
               \<and> map status news = in_processing # replicate f retrying @ [complete]
               \<and> atts = replicate f False @ [True]
               \<and> (\<exists>c. fst (masker n policy request
                              (rows_of access_request_data ?a) c) = Inr cnt))
            \<or> (cnt = 0
               \<and> map status news = in_processing # replicate ?K retrying @ [error]
               \<and> atts = replicate (Suc ?K) False)
          else cnt = 0 \<and> atts = [] \<and> map status news = [in_processing, complete]"
    unfolding erasure_effect_def by (elim conjE)
  consider (none) "\<not> list_ex primary_key (node_fields n)" "?st = [in_processing, complete]" "?at = []"
    | (ok) f where "list_ex primary_key (node_fields n)" "f \<le> ?K"
        "?st = in_processing # replicate f retrying @ [complete]"
        "?at = replicate f False @ [True]"
        "\<exists>c. fst (masker n policy request (rows_of access_request_data ?a) c) = Inr cnt"
    | (bad) "list_ex primary_key (node_fields n)"
        "?st = in_processing # replicate ?K retrying @ [error]"
        "?at = replicate (Suc ?K) False"
  proof (cases "list_ex primary_key (node_fields n)")
    case False
    with branch st at none show ?thesis by simp
  next
    case True
    with branch have "(\<exists>f. f \<le> ?K
               \<and> map status news = in_processing # replicate f retrying @ [complete]
               \<and> atts = replicate f False @ [True]
               \<and> (\<exists>c. fst (masker n policy request
                              (rows_of access_request_data ?a) c) = Inr cnt))
            \<or> (cnt = 0
               \<and> map status news = in_processing # replicate ?K retrying @ [error]
               \<and> atts = replicate (Suc ?K) False)"
      by simp
    then show ?thesis
    proof
      assume "\<exists>f. f \<le> ?K
               \<and> map status news = in_processing # replicate f retrying @ [complete]
               \<and> atts = replicate f False @ [True]
               \<and> (\<exists>c. fst (masker n policy request
                              (rows_of access_request_data ?a) c) = Inr cnt)"
      then obtain f where "f \<le> ?K
               \<and> map status news = in_processing # replicate f retrying @ [complete]
               \<and> atts = replicate f False @ [True]
               \<and> (\<exists>c. fst (masker n policy request
                              (rows_of access_request_data ?a) c) = Inr cnt)" ..
      with True st at show ?thesis by (intro ok [of f]) simp_all
    next
      assume "cnt = 0
               \<and> map status news = in_processing # replicate ?K retrying @ [error]
               \<and> atts = replicate (Suc ?K) False"
      with True st at show ?thesis by (intro bad) simp_all
    qed
  qed
  then show ?thesis
  proof cases
    case none
    have 1: "int (count_status retrying ?st) \<le> TASK_RETRY_COUNT cfg"
      unfolding none(2) using k by (simp add: count_status_def)
    have 2: "error \<notin> set ?st" unfolding none(2) by simp
    have 3: "?at \<noteq> replicate (?K + 1) False" unfolding none(3) by simp
    from 1 2 3 none(1,2) show ?thesis by simp
  next
    case ok
    have 1: "int (count_status retrying ?st) \<le> TASK_RETRY_COUNT cfg"
      unfolding ok(3) count_retrying_completed using ok(2) k by linarith
    have 2: "error \<notin> set ?st" unfolding ok(3) by auto
    have 3: "?at \<noteq> replicate (?K + 1) False"
    proof
      assume "?at = replicate (?K + 1) False"
      moreover have "True \<in> set ?at" unfolding ok(4) by simp
      ultimately have "True \<in> set (replicate (?K + 1) False)" by simp
      then show False by simp
    qed
    have 4: "\<not> mask_always_raises masker"
    proof
      assume ar: "mask_always_raises masker"
      from ok(5) obtain c' where
        r: "fst (masker n policy request (rows_of access_request_data ?a) c') = Inr cnt"
        by blast
      from ar obtain e where
        "fst (masker n policy request (rows_of access_request_data ?a) c') = Inl e"
        unfolding mask_always_raises_def by blast
      with r show False by simp
    qed
    from 1 2 3 4 ok(1) show ?thesis by simp
  next
    case bad
    have 1: "int (count_status retrying ?st) \<le> TASK_RETRY_COUNT cfg"
      unfolding bad(2) count_retrying_gave_up using k by simp
    have 2: "error \<in> set ?st" unfolding bad(2) by simp
    have 3: "TASK_RETRY_COUNT cfg = 1 \<Longrightarrow> ?st = [in_processing, retrying, error]"
      unfolding bad(2) by simp
    from 1 2 3 bad(1,3) show ?thesis by simp
  qed
qed

lemmas erasure_run_defs =
  run_erasure_def initial_state_def erasure_task_def Let_def add_log_def
  record_attempt_def rows_of_def statuses_for_def logs_for_def attempts_for_def
  action_statuses_for_def count_status_def

lemma mask_always_raises_example: "mask_always_raises example_failing_masker"
  by (simp add: mask_always_raises_def example_failing_masker_def)

lemma example_failing_erasure:
  "statuses_for (node_address example_erasure_address_node)
     (task_logs (run_erasure example_failing_masker example_retry_settings example_request
        example_erasure_policy_all [example_customer_node, example_erasure_address_node]
        example_seed example_access_data [] 0))
   = [in_processing, complete]"
  "statuses_for (node_address example_customer_node)
     (task_logs (run_erasure example_failing_masker example_retry_settings example_request
        example_erasure_policy_all [example_customer_node, example_erasure_address_node]
        example_seed example_access_data [] 0))
   = [in_processing, retrying, error]"
  "erasure_results (run_erasure example_failing_masker example_retry_settings example_request
        example_erasure_policy_all [example_customer_node, example_erasure_address_node]
        example_seed example_access_data [] 0)
   = [((''postgres_example_test_dataset'', ''customer''), 0),
      ((''postgres_example_test_dataset'', ''address''), 0)]"
  by (simp_all add: erasure_run_defs example_failing_masker_def example_retry_settings_def
      example_request_def example_customer_node_def example_erasure_address_node_def
      example_access_data_def numeral_2_eq_2)

section \<open>Claims about the result filter\<close>


lemma example_target_paths:
  "target_field_paths [''user.provided.identifiable.contact.street''] example_address_fields
     = [[''house''], [''street'']]"
  by (simp add: target_field_paths_def collection_field_paths_def example_address_fields_def
      field_matches_def category_matches_def)

lemma example_filtered_row:
  "filter_row_categories [''user.provided.identifiable.contact.street'']
       example_address_fields (PDict example_address_row)
     = Inr (PDict [(''house'', PInt 123), (''street'', PStr ''Example Street'')])"
  by (simp add: filter_row_categories_def example_target_paths filter_row_def
      example_address_row_def is_empty_container_def)

lemma example_scalar_paths:
  "target_field_paths [''user.provided.identifiable.contact.street''] example_nested_fields
     = [[''a'', ''b'']]"
  by (simp add: target_field_paths_def collection_field_paths_def example_nested_fields_def
      field_matches_def category_matches_def)

lemma example_scalar_filtered:
  "filter_row_categories [''user.provided.identifiable.contact.street'']
       example_nested_fields (PDict example_scalar_row)
     = Inr (PDict [(''a'', PInt 5)])"
  by (simp add: filter_row_categories_def example_scalar_paths filter_row_def
      example_scalar_row_def is_empty_container_def)

lemma example_mixed_filtered:
  "filter_row_categories [''user.provided.identifiable.contact.street'']
       example_nested_fields (PDict example_mixed_row)
     = Inr (PDict [(''a'', PList [PStr ''secret'', PDict [(''b'', PStr ''street'')]])])"
  by (simp add: filter_row_categories_def example_scalar_paths filter_row_def
      example_mixed_row_def is_empty_container_def)

lemma example_deep_filtered:
  "filter_row_categories [''user.provided.identifiable.contact.street'']
       example_nested_fields (PDict example_deep_row)
     = Inl IndexError"
  by (simp add: filter_row_categories_def example_scalar_paths filter_row_def
      example_deep_row_def is_empty_container_def)



text \<open>
  Claim C6. For every nested row (dictionaries with each key once), the result of
  \<^verbatim>\<open>remove_empty_containers\<close> has no empty dictionary and no empty list inside it, at
  any depth, and at every field path it holds exactly the scalar values the input holds
  there: every value it retains was present at the same path in the input.
\<close>

theorem remove_empty_containers_no_empty:
  assumes "wf row"
  shows "no_empty_inside (remove_empty_containers row)
       \<and> leaves_at p (remove_empty_containers row) = leaves_at p row
       \<and> set (leaves_at p (remove_empty_containers row)) \<subseteq> set (leaves_at p row)"
  using assms
  by (simp add: remove_empty_containers_prune no_empty_inside_prune leaves_at_prune)

theorem remove_empty_containers_no_empty_witness:
  "wf example_nested_row
   \<and> remove_empty_containers example_nested_row
       = PDict [(''a'', PList [PInt 1]), (''c'', PDict [(''d'', PStr ''s'')])]
   \<and> no_empty_inside (remove_empty_containers example_nested_row)
   \<and> leaves_at [''c'', ''d''] (remove_empty_containers example_nested_row) = [PStr ''s'']"
proof -
  have w: "wf example_nested_row"
    by (simp add: example_nested_row_def)
  have v: "remove_empty_containers example_nested_row
       = PDict [(''a'', PList [PInt 1]), (''c'', PDict [(''d'', PStr ''s'')])]"
    by (simp add: example_nested_row_def is_empty_container_def)
  from remove_empty_containers_no_empty [OF w, of "[''c'', ''d'']"] w v
  show ?thesis
    by (simp add: example_nested_row_def)
qed

text \<open>
  Claim C7. The filter is idempotent: when filtering a row (field-path selection, then
  pruning of empty containers) for the target field paths of a request returns a
  result, filtering that result again for the same paths returns it unchanged. The
  paths are those of any requested category set \<open>S\<close> on any collection.
\<close>

theorem filter_idempotent:
  assumes "wf row"
    and "filter_row_categories S flds row = Inr r"
  shows "filter_row_categories S flds r = Inr r"
  using assms unfolding filter_row_categories_def by (rule filter_row_idem)

lemma example_customer_filtered:
  "filter_row_categories [''user.provided.identifiable.contact.street'']
       example_customer_fields example_customer_row
     = Inr (PDict [(''addresses'', PList [PDict [(''street'', PStr ''Example Street'')]])])"
  by (simp add: filter_row_categories_def filter_row_def target_field_paths_def
      collection_field_paths_def example_customer_fields_def field_matches_def
      category_matches_def example_customer_row_def is_empty_container_def)

theorem filter_idempotent_witness:
  "wf example_customer_row
   \<and> filter_row_categories [''user.provided.identifiable.contact.street'']
         example_customer_fields example_customer_row
       = Inr (PDict [(''addresses'', PList [PDict [(''street'', PStr ''Example Street'')]])])
   \<and> filter_row_categories [''user.provided.identifiable.contact.street'']
         example_customer_fields
         (PDict [(''addresses'', PList [PDict [(''street'', PStr ''Example Street'')]])])
       = Inr (PDict [(''addresses'', PList [PDict [(''street'', PStr ''Example Street'')]])])"
proof -
  have w: "wf example_customer_row"
    by (simp add: example_customer_row_def)
  from filter_idempotent [OF w example_customer_filtered] w example_customer_filtered
  show ?thesis by simp
qed

section \<open>Claims about the SQL connector\<close>

text \<open>
  Claim C2. When the input of a node has no field with a non-empty list of values other
  than \<^verbatim>\<open>None\<close> (it is empty, its lists are empty, it holds \<^verbatim>\<open>None\<close> only, or its keys
  are no seeded field of the node), \<^verbatim>\<open>generate_query\<close> yields \<^verbatim>\<open>None\<close>, and
  \<^verbatim>\<open>retrieve_data\<close> returns the empty list of rows: \<^verbatim>\<open>connection.execute\<close> is not
  called and the store is as it was. The second part holds for every query configuration
  whose \<^verbatim>\<open>generate_query\<close> yields \<^verbatim>\<open>None\<close> (lemma \<open>retrieve_data_None\<close>).
\<close>

theorem no_input_no_query:
  assumes "no_usable_input node input_data"
  shows "generate_query (spec_query_config node) input_data policy = None
       \<and> retrieve_data spec_query_config exec self node policy input_data = (Inr [], client self)
       \<and> calls (client self) = calls self
       \<and> store (client self) = store self"
proof -
  have "generate_query (spec_query_config node) input_data policy = None"
    using filtered_input_empty [OF assms]
    by (simp add: spec_query_config_def spec_generate_query_def)
  then show ?thesis
    by (simp add: retrieve_data_None)
qed

theorem no_input_no_query_witness:
  "no_usable_input example_customer_node example_no_input
   \<and> generate_query (spec_query_config example_customer_node) example_no_input [] = None
   \<and> retrieve_data spec_query_config example_exec example_connector example_customer_node []
         example_no_input
       = (Inr [], \<lparr>db_client = True, store = 0, calls = []\<rparr>)
   \<and> generate_query (spec_query_config example_customer_node)
         [(''email'', PList [PStr ''customer-1@example.com''])] []
       = Some (Select (''postgres_example_test_dataset'', ''customer'')
            [(''email'', [PStr ''customer-1@example.com''])])"
  using no_input_no_query [OF example_no_usable_input, of "[]" example_exec example_connector]
    example_no_usable_input example_usable_input
  by (simp add: client_def example_connector_def)

text \<open>
  Claim C8. When \<^verbatim>\<open>mask_data\<close> returns, it has called \<^verbatim>\<open>connection.execute\<close> once
  for each row for which \<^verbatim>\<open>generate_update_stmt\<close> gives a statement, in the order of
  the rows, and it returns the sum of the affected-row counts of these calls; a row for
  which \<^verbatim>\<open>generate_update_stmt\<close> gives \<^verbatim>\<open>None\<close> causes no call and adds nothing. On
  the empty list of rows it returns 0. The generator of the specification gives
  \<^verbatim>\<open>None\<close> exactly when the row has no primary-key field with a value other than
  \<^verbatim>\<open>None\<close>, or no field that an erasure rule targets.
\<close>

theorem mask_data_counts_updates:
  assumes "mask_data query_config exec self node policy request rows = (Inr n, self')"
  shows "(\<exists>entries. calls self' = calls self @ entries
            \<and> map fst entries =
                List.map_filter (\<lambda>row. generate_update_stmt (query_config node) row policy request) rows
            \<and> n = sum_list (map call_rowcount entries))
       \<and> mask_data query_config exec self node policy request [] = (Inr 0, client self)
       \<and> (generate_update_stmt (spec_query_config node) row policy request = None \<longleftrightarrow>
            primary_key_values (node_fields node) row = []
            \<or> masked_values policy (node_fields node) row = [])"
proof -
  from assms have "mask_rows (query_config node) exec policy request rows 0 (client self) = (Inr n, self')"
    by (simp add: mask_data_def)
  from mask_rows_result [OF this] show ?thesis
    by (simp add: mask_data_def spec_generate_update_stmt_None)
qed

theorem mask_data_counts_updates_witness:
  "mask_data spec_query_config example_exec example_connector example_customer_node
      example_erasure_policy example_request example_customer_rows
     = (Inr 2, example_masked_connector)
   \<and> (\<exists>entries. calls example_masked_connector = calls example_connector @ entries
          \<and> map fst entries =
              List.map_filter
                (\<lambda>row. generate_update_stmt (spec_query_config example_customer_node) row
                   example_erasure_policy example_request) example_customer_rows
          \<and> (2 :: int) = sum_list (map call_rowcount entries))
   \<and> length (calls example_masked_connector) = 2"
  using mask_data_counts_updates [OF example_mask_data, of "[]"] example_mask_data
  by (simp add: example_masked_connector_def)

section \<open>Claims about the task execution engine\<close>

text \<open>
  Claim C1. In an erasure run over nodes with distinct addresses, a collection without
  a field with \<^verbatim>\<open>primary_key=true\<close> masks no row: the erasure result map reports 0 for
  its address and \<^verbatim>\<open>mask_data\<close> is not called for it. If the logs the run starts from
  hold no entry for the collection with the message "No values were erased since no
  primary key was defined for this collection", the logs it ends with hold exactly one,
  with status \<^verbatim>\<open>complete\<close>. The logs of an access run hold no such entry, so this is the
  case for an erasure that follows the access pass of the same request.
\<close>

theorem erasure_without_primary_key:
  assumes n: "n \<in> set order" and d: "distinct (map node_address order)"
    and npk: "\<not> list_ex primary_key (node_fields n)"
    and prev: "no_primary_key_logs (node_address n) previous_logs = []"
  shows "map_of (erasure_results
            (run_erasure masker cfg request policy order seed access_request_data
               previous_logs c)) (node_address n) = Some 0
       \<and> attempts_for (node_address n) (task_attempts
            (run_erasure masker cfg request policy order seed access_request_data
               previous_logs c)) = []
       \<and> length (no_primary_key_logs (node_address n) (task_logs
            (run_erasure masker cfg request policy order seed access_request_data
               previous_logs c))) = 1
       \<and> map status (no_primary_key_logs (node_address n) (task_logs
            (run_erasure masker cfg request policy order seed access_request_data
               previous_logs c))) = [complete]
       \<and> no_primary_key_logs (node_address n) (task_logs
            (run_access_request retrieve cfg request policy order seed c')) = []"
proof -
  let ?a = "node_address n"
  let ?fin = "run_erasure masker cfg request policy order seed access_request_data previous_logs c"
  from n obtain pre post where o: "order = pre @ n # post"
    by (auto simp: in_set_conv_decomp)
  with d have a: "?a \<notin> node_address ` set pre" "?a \<notin> node_address ` set post"
    by auto
  let ?s = "run_erasure_tasks masker cfg request policy access_request_data pre
      (initial_state c seed previous_logs)"
  let ?s' = "erasure_task masker cfg request policy access_request_data n ?s"
  have v0: "erasure_view ?a ?s = (logs_for ?a previous_logs, [], None)"
    using run_erasure_tasks_frame [OF a(1), of masker cfg request policy access_request_data
        "initial_state c seed previous_logs"]
    by (simp add: erasure_view_def initial_state_def attempts_for_def)
  have fin: "erasure_view ?a ?fin = erasure_view ?a ?s'"
    unfolding run_erasure_def o run_erasure_tasks_append
    by (simp add: run_erasure_tasks_frame [OF a(2)])
  from erasure_task_no_primary_key [OF npk, of masker cfg request policy access_request_data ?s]
  obtain l1 l2 where l: "task_logs ?s' = task_logs ?s @ [l1, l2]"
    "own_log ?a l1" "own_log ?a l2" "message l1 = None"
    "status l2 = complete" "message l2 = Some NO_PRIMARY_KEY_MESSAGE"
    and at: "task_attempts ?s' = task_attempts ?s"
    and er: "erasure_results ?s' = erasure_results ?s @ [(?a, 0)]"
    by blast
  from v0 have pre: "logs_for ?a (task_logs ?s) = logs_for ?a previous_logs"
    "attempts_for ?a (task_attempts ?s) = []" "map_of (erasure_results ?s) ?a = None"
    by (simp_all add: erasure_view_def)
  from fin have f: "logs_for ?a (task_logs ?fin) = logs_for ?a (task_logs ?s')"
    "attempts_for ?a (task_attempts ?fin) = attempts_for ?a (task_attempts ?s')"
    "map_of (erasure_results ?fin) ?a = map_of (erasure_results ?s') ?a"
    by (simp_all add: erasure_view_def)
  have 1: "map_of (erasure_results ?fin) ?a = Some 0"
    unfolding f er using pre(3) by (simp add: map_of_snoc del: map_of_append)
  have 2: "attempts_for ?a (task_attempts ?fin) = []"
    unfolding f at by (rule pre(2))
  have "logs_for ?a (task_logs ?fin) = logs_for ?a previous_logs @ [l1, l2]"
    unfolding f l(1) logs_for_append pre(1) using l(2,3) by (simp add: logs_for_def own_log_def)
  then have "no_primary_key_logs ?a (task_logs ?fin)
      = no_primary_key_logs ?a previous_logs @ filter (\<lambda>l. message l = Some NO_PRIMARY_KEY_MESSAGE) [l1, l2]"
    by (simp add: no_primary_key_logs_def)
  with prev l(4,6) have 3: "no_primary_key_logs ?a (task_logs ?fin) = [l2]"
    by simp
  from 1 2 3 l(5) access_request_no_primary_key_logs [of ?a retrieve cfg request policy order seed c']
  show ?thesis by simp
qed

theorem erasure_without_primary_key_witness:
  "example_erasure_address_node \<in> set [example_customer_node, example_erasure_address_node]
   \<and> distinct (map node_address [example_customer_node, example_erasure_address_node])
   \<and> \<not> list_ex primary_key (node_fields example_erasure_address_node)
   \<and> no_primary_key_logs (node_address example_erasure_address_node) [] = []
   \<and> rows_of example_access_data (node_address example_erasure_address_node)
       = [[(''id'', PInt 7), (''city'', PStr ''Exampletown'')]]
   \<and> erasure_results (run_erasure example_sql_masker example_retry_settings example_request
        example_erasure_policy_all [example_customer_node, example_erasure_address_node]
        example_seed example_access_data [] example_connector)
       = [((''postgres_example_test_dataset'', ''customer''), 1),
          ((''postgres_example_test_dataset'', ''address''), 0)]
   \<and> map_of (erasure_results (run_erasure example_sql_masker example_retry_settings
          example_request example_erasure_policy_all
          [example_customer_node, example_erasure_address_node]
          example_seed example_access_data [] example_connector))
        (node_address example_erasure_address_node) = Some 0
   \<and> attempts_for (node_address example_erasure_address_node)
        (task_attempts (run_erasure example_sql_masker example_retry_settings
          example_request example_erasure_policy_all
          [example_customer_node, example_erasure_address_node]
          example_seed example_access_data [] example_connector)) = []
   \<and> length (no_primary_key_logs (node_address example_erasure_address_node)
        (task_logs (run_erasure example_sql_masker example_retry_settings
          example_request example_erasure_policy_all
          [example_customer_node, example_erasure_address_node]
          example_seed example_access_data [] example_connector))) = 1"
proof -
  have h: "example_erasure_address_node \<in> set [example_customer_node, example_erasure_address_node]"
    "distinct (map node_address [example_customer_node, example_erasure_address_node])"
    "\<not> list_ex primary_key (node_fields example_erasure_address_node)"
    "no_primary_key_logs (node_address example_erasure_address_node) [] = []"
    by (simp_all add: example_customer_node_def example_erasure_address_node_def
        no_primary_key_logs_def logs_for_def)
  have r: "rows_of example_access_data (node_address example_erasure_address_node)
       = [[(''id'', PInt 7), (''city'', PStr ''Exampletown'')]]"
    by (simp add: rows_of_def example_access_data_def example_erasure_address_node_def)
  note t = erasure_without_primary_key [OF h, of example_sql_masker example_retry_settings
      example_request example_erasure_policy_all example_seed example_access_data
      example_connector example_failing_retrieve 0]
  from t have 1: "map_of (erasure_results (run_erasure example_sql_masker example_retry_settings
          example_request example_erasure_policy_all
          [example_customer_node, example_erasure_address_node]
          example_seed example_access_data [] example_connector))
        (node_address example_erasure_address_node) = Some 0"
    by (rule conjunct1)
  from t have 2: "attempts_for (node_address example_erasure_address_node)
        (task_attempts (run_erasure example_sql_masker example_retry_settings
          example_request example_erasure_policy_all
          [example_customer_node, example_erasure_address_node]
          example_seed example_access_data [] example_connector)) = []"
    by (elim conjE)
  from t have 3: "length (no_primary_key_logs (node_address example_erasure_address_node)
        (task_logs (run_erasure example_sql_masker example_retry_settings
          example_request example_erasure_policy_all
          [example_customer_node, example_erasure_address_node]
          example_seed example_access_data [] example_connector))) = 1"
    by (elim conjE)
  from h r example_erasure_results 1 2 3 show ?thesis by (intro conjI)
qed







end
